theory Spec2Isabelle
  imports Complex_Main
begin

section \<open>The event framework of vs/base/common/event.ts\<close>

text \<open>
  The development embeds the classes \<open>LeakageMonitor\<close>, \<open>EventProfiling\<close>,
  \<open>SafeDisposable\<close>, \<open>Listener\<close>, \<open>Emitter\<close>, \<open>PauseableEmitter\<close>,
  \<open>DebounceEmitter\<close> and \<open>AsyncEmitter\<close> of \<open>src/vs/base/common/event.ts\<close>.

  Conventions.
  \<^item> A JavaScript \<open>number\<close> that the code compares and halves (the leak thresholds and
    the warn countdown) is a \<open>rat\<close>; on integers and half-integers below \<open>2^52\<close> the
    double arithmetic of the source is exact, so both agree there. \<open>NaN\<close> and the
    infinities are not modelled.
  \<^item> A \<open>LinkedList\<close> (vs/base/common/linkedList, not among the sources) is a HOL list:
    \<open>push\<close> appends at the end, \<open>shift\<close> takes the head, \<open>clear\<close> empties it, iteration
    runs from the head, and the function \<open>push\<close> returns removes the pushed node.
    An absent list (\<open>undefined\<close>) is \<open>None\<close>.
  \<^item> A listener is an object; its identity is a number \<open>lid\<close> handed out by a counter.
  \<^item> A callback is arbitrary JavaScript. Here it is a script: a function from the
    payload to the list of calls it makes on its emitter, possibly ending in a throw.
  \<^item> Everything the code sends to the outside (listener invocations, the error sink,
    \<open>console.warn\<close>, \<open>console.info\<close>, the option hooks) is appended to a log in the state.
  \<^item> Functions that may not return (a listener can fire its own emitter for ever) take
    fuel and return \<open>None\<close> when it runs out.
\<close>

subsection \<open>LeakageMonitor\<close>

text \<open>A \<open>Map<string, number>\<close> keeps its keys in insertion order; \<open>set\<close> on a present
  key keeps the key's place.\<close>

type_synonym stacks_map = "(string \<times> int) list"

fun map_set :: "stacks_map \<Rightarrow> string \<Rightarrow> int \<Rightarrow> stacks_map" where
  "map_set [] k v = [(k, v)]"
| "map_set ((k', v') # m) k v = (if k' = k then (k, v) # m else (k', v') # map_set m k v)"

text \<open>\<open>this._stacks.get(stack.value) || 0\<close>\<close>

definition get_or_0 :: "stacks_map \<Rightarrow> string \<Rightarrow> int" where
  "get_or_0 m k = (case map_of m k of None \<Rightarrow> 0 | Some c \<Rightarrow> c)"

record LeakageMonitor =
  customThreshold :: "rat option"
  stacks :: "stacks_map option"
  warnCountdown :: rat

definition new_LeakageMonitor :: "rat option \<Rightarrow> LeakageMonitor" where
  "new_LeakageMonitor custom = \<lparr> customThreshold = custom, stacks = None, warnCountdown = 0 \<rparr>"

text \<open>One leak warning (the two \<open>console.warn\<close> calls of \<open>check\<close>): the listener count
  of the message, the count of the most frequent stack, and that stack.\<close>

record warning =
  w_listenerCount :: nat
  w_topCount :: int
  w_topStack :: "string option"

text \<open>The loop that finds the most frequent stack. \<open>!topStack\<close> holds for \<open>undefined\<close>
  and for the empty string.\<close>

fun top_loop :: "stacks_map \<Rightarrow> string option \<times> int \<Rightarrow> string option \<times> int" where
  "top_loop [] acc = acc"
| "top_loop ((stack, count) # rest) (topStack, topCount) =
     (if topStack = None \<or> topStack = Some [] \<or> topCount < count
      then top_loop rest (Some stack, count)
      else top_loop rest (topStack, topCount))"

text \<open>\<open>LeakageMonitor.check\<close>. The first argument is the value of the module variable
  \<open>_globalLeakWarningThreshold\<close> at the time of the call. The result is the monitor,
  the warnings printed, and whether a remover was returned (\<open>False\<close> is \<open>undefined\<close>).
  \<open>effective_threshold\<close> is the local \<open>threshold\<close> of \<open>check\<close>: the custom threshold
  when it is a number, the global one otherwise.\<close>

definition effective_threshold :: "rat \<Rightarrow> LeakageMonitor \<Rightarrow> rat" where
  "effective_threshold glob mon = (case customThreshold mon of Some c \<Rightarrow> c | None \<Rightarrow> glob)"

definition check :: "rat \<Rightarrow> LeakageMonitor \<Rightarrow> string \<Rightarrow> nat \<Rightarrow> LeakageMonitor \<times> warning list \<times> bool" where
  "check glob mon stack listenerCount =
    (let threshold = effective_threshold glob mon in
     if threshold \<le> 0 \<or> of_nat listenerCount < threshold then (mon, [], False)
     else
       let m = (case stacks mon of None \<Rightarrow> [] | Some m \<Rightarrow> m);
           count = get_or_0 m stack;
           m1 = map_set m stack (count + 1);
           countdown = warnCountdown mon - 1
       in if countdown \<le> 0
          then
            let (topStack, topCount) = top_loop m1 (None, 0) in
            (mon\<lparr> stacks := Some m1, warnCountdown := threshold * (1 / 2) \<rparr>,
             [\<lparr> w_listenerCount = listenerCount, w_topCount = topCount, w_topStack = topStack \<rparr>],
             True)
          else (mon\<lparr> stacks := Some m1, warnCountdown := countdown \<rparr>, [], True))"

text \<open>The remover \<open>check\<close> returns; \<open>this._stacks!\<close> is present whenever a remover exists.\<close>

definition removeMonitor :: "string \<Rightarrow> LeakageMonitor \<Rightarrow> LeakageMonitor" where
  "removeMonitor stack mon =
    (let m = (case stacks mon of None \<Rightarrow> [] | Some m \<Rightarrow> m) in
     mon\<lparr> stacks := Some (map_set m stack (get_or_0 m stack - 1)) \<rparr>)"

definition LeakageMonitor_dispose :: "LeakageMonitor \<Rightarrow> LeakageMonitor" where
  "LeakageMonitor_dispose mon = (case stacks mon of None \<Rightarrow> mon | Some _ \<Rightarrow> mon\<lparr> stacks := Some [] \<rparr>)"

subsection \<open>EventProfiling\<close>

text \<open>The stopwatch measures real time, which is left out; what remains is whether a
  stopwatch is running, the listener count of \<open>start\<close> and the number of invocations.\<close>

record EventProfiling =
  stopWatch :: bool
  p_listenerCount :: nat
  invocationCount :: nat

definition EventProfiling_start :: "nat \<Rightarrow> EventProfiling \<Rightarrow> EventProfiling" where
  "EventProfiling_start listenerCount p = p\<lparr> stopWatch := True, p_listenerCount := listenerCount \<rparr>"

text \<open>\<open>stop\<close> returns the profiler and the \<open>console.info\<close> lines it printed (listener count
  and invocation count of the line).\<close>

definition EventProfiling_stop :: "EventProfiling \<Rightarrow> EventProfiling \<times> (nat \<times> nat) list" where
  "EventProfiling_stop p =
    (if stopWatch p
     then (p\<lparr> invocationCount := invocationCount p + 1, stopWatch := False \<rparr>,
           [(p_listenerCount p, invocationCount p + 1)])
     else (p, []))"

subsection \<open>Listeners and their scripts\<close>

text \<open>What a callback can do to the emitter it listens to. \<open>ARelease i\<close> disposes the
  subscription of listener \<open>i\<close>; \<open>ASubscribe cb site\<close> subscribes \<open>cb\<close> from the call site
  \<open>site\<close>; \<open>AThrow e\<close> throws.\<close>

datatype 'a action =
    AFire 'a
  | ARelease nat
  | ASubscribe "'a \<Rightarrow> 'a action list" string
  | ADispose
  | APause
  | AResume
  | AThrow string

record 'a Listener =
  lid :: nat
  callback :: "'a \<Rightarrow> 'a action list"
  stack :: "string option"

record EmitterOptions =
  onFirstListenerAdd :: bool
  onFirstListenerDidAdd :: bool
  onListenerDidAdd :: bool
  onLastListenerRemove :: bool
  leakWarningThreshold :: "rat option"
  profName :: "string option"

datatype hook = OnFirstListenerAdd | OnFirstListenerDidAdd | OnListenerDidAdd | OnLastListenerRemove

text \<open>The class of the object, for the virtual call \<open>fire\<close>.\<close>

datatype kind = KEmitter | KPauseable | KDebounce

subsection \<open>The state\<close>

text \<open>
  The fields of an \<open>Emitter\<close> object and of its subclasses \<open>PauseableEmitter\<close> and
  \<open>DebounceEmitter\<close> (unused when \<open>kind\<close> is a superclass), then the environment the
  object lives in, then the logs.
  \<^item> \<open>subs\<close> holds the subscriptions that are still set (\<open>SafeDisposable.isset\<close>): the
    listener's number and, when \<open>check\<close> returned a remover, the stack it removes.
  \<^item> \<open>microtasks\<close> holds the callbacks queued by \<open>queueMicrotask\<close> in \<open>dispose\<close>:
    each is the array of listeners whose subscriptions it will unset.
  \<^item> \<open>handle\<close> is the pending timer of a \<open>DebounceEmitter\<close>: the time at which the host
    will run it.
  \<^item> \<open>invoked\<close> logs every \<open>listener.invoke(event)\<close>: listener, payload, time.
\<close>

record 'a Emitter =
  options :: EmitterOptions
  leakageMon :: "LeakageMonitor option"
  perfMon :: "EventProfiling option"
  disposed :: bool
  deliveryQueue :: "('a Listener \<times> 'a) list option"
  listeners :: "'a Listener list option"
  isPaused :: nat
  eventQueue :: "'a list"
  mergeFn :: "('a list \<Rightarrow> 'a) option"
  delay :: nat
  handle :: "nat option"
  kind :: kind
  globalLeakWarningThreshold :: rat
  nextId :: nat
  subs :: "(nat \<times> string option) list"
  microtasks :: "nat list list"
  now :: nat
  invoked :: "(nat \<times> 'a \<times> nat) list"
  errors :: "string list"
  warnings :: "warning list"
  hooks :: "hook list"
  infos :: "(nat \<times> nat) list"

text \<open>\<open>setGlobalLeakWarningThreshold(n)\<close>; disposing its result sets the old value again.\<close>

definition setGlobalLeakWarningThreshold :: "rat \<Rightarrow> 'a Emitter \<Rightarrow> 'a Emitter" where
  "setGlobalLeakWarningThreshold n st = st\<lparr> globalLeakWarningThreshold := n \<rparr>"

text \<open>Modelled from the spec: \<open>onUnexpectedError\<close> of vs/base/common/errors is not among
  the sources; the error sink receives the fault and never throws back into the caller.\<close>

definition onUnexpectedError :: "string \<Rightarrow> 'a Emitter \<Rightarrow> 'a Emitter" where
  "onUnexpectedError e st = st\<lparr> errors := errors st @ [e] \<rparr>"

definition call_hook :: "bool \<Rightarrow> hook \<Rightarrow> 'a Emitter \<Rightarrow> 'a Emitter" where
  "call_hook configured h st = (if configured then st\<lparr> hooks := hooks st @ [h] \<rparr> else st)"

subsection \<open>Emitter: constructor, subscribe, release, dispose\<close>

text \<open>\<open>new Emitter(options)\<close> while the module variable holds \<open>glob\<close>. \<open>_profName\<close> counts
  when it is a non-empty string.\<close>

definition Emitter_new :: "rat \<Rightarrow> EmitterOptions \<Rightarrow> 'a Emitter" where
  "Emitter_new glob opts =
    \<lparr> options = opts,
      leakageMon = (if glob > 0 then Some (new_LeakageMonitor (leakWarningThreshold opts)) else None),
      perfMon = (case profName opts of
                   None \<Rightarrow> None
                 | Some n \<Rightarrow> if n = [] then None
                     else Some \<lparr> stopWatch = False, p_listenerCount = 0, invocationCount = 0 \<rparr>),
      disposed = False,
      deliveryQueue = None,
      listeners = None,
      isPaused = 0,
      eventQueue = [],
      mergeFn = None,
      delay = 0,
      handle = None,
      kind = KEmitter,
      globalLeakWarningThreshold = glob,
      nextId = 0,
      subs = [],
      microtasks = [],
      now = 0,
      invoked = [],
      errors = [],
      warnings = [],
      hooks = [],
      infos = [] \<rparr>"

text \<open>\<open>new PauseableEmitter(options)\<close> with \<open>options.merge\<close>, and
  \<open>new DebounceEmitter(options)\<close> with \<open>options.merge\<close> and \<open>options.delay ?? 100\<close>.\<close>

definition PauseableEmitter_new :: "rat \<Rightarrow> EmitterOptions \<Rightarrow> ('a list \<Rightarrow> 'a) option \<Rightarrow> 'a Emitter" where
  "PauseableEmitter_new glob opts merge = (Emitter_new glob opts)\<lparr> mergeFn := merge, kind := KPauseable \<rparr>"

definition DebounceEmitter_new :: "rat \<Rightarrow> EmitterOptions \<Rightarrow> ('a list \<Rightarrow> 'a) \<Rightarrow> nat option \<Rightarrow> 'a Emitter" where
  "DebounceEmitter_new glob opts merge d =
    (Emitter_new glob opts)\<lparr> mergeFn := Some merge, kind := KDebounce,
                              delay := (case d of None \<Rightarrow> 100 | Some d \<Rightarrow> d) \<rparr>"

text \<open>The function \<open>this._event\<close>: a subscription of \<open>cb\<close>, made from the call site
  \<open>site\<close> (the value of the captured stack trace). The new listener gets the number
  \<open>nextId\<close>.\<close>

definition subscribe :: "'a Emitter \<Rightarrow> ('a \<Rightarrow> 'a action list) \<Rightarrow> string \<Rightarrow> 'a Emitter" where
  "subscribe st cb site =
    (let ls = (case listeners st of None \<Rightarrow> [] | Some ls \<Rightarrow> ls);
         firstListener = (ls = []);
         st1 = call_hook (firstListener \<and> onFirstListenerAdd (options st)) OnFirstListenerAdd st;
         (mon, ws, remover, stk) =
            (case leakageMon st1 of
               None \<Rightarrow> (None, [], None, None)
             | Some m \<Rightarrow>
                 let (m1, ws, r) = check (globalLeakWarningThreshold st1) m site (length ls + 1)
                 in (Some m1, ws, if r then Some site else None, Some site));
         listener = \<lparr> lid = nextId st1, callback = cb, stack = stk \<rparr>;
         st2 = st1\<lparr> leakageMon := mon, warnings := warnings st1 @ ws,
                    listeners := Some (ls @ [listener]), nextId := nextId st1 + 1 \<rparr>;
         st3 = call_hook (firstListener \<and> onFirstListenerDidAdd (options st2)) OnFirstListenerDidAdd st2;
         st4 = call_hook (onListenerDidAdd (options st3)) OnListenerDidAdd st3
     in st4\<lparr> subs := subs st4 @ [(lid listener, remover)] \<rparr>)"

text \<open>Disposing the subscription of listener \<open>i\<close> (\<open>SafeDisposable.dispose\<close> around the
  function given to \<open>toDisposable\<close>). Nothing happens when the subscription is no
  longer set.\<close>

definition release :: "'a Emitter \<Rightarrow> nat \<Rightarrow> 'a Emitter" where
  "release st i =
    (case map_of (subs st) i of
       None \<Rightarrow> st
     | Some remover \<Rightarrow>
         let st1 = (case remover of
                      None \<Rightarrow> st
                    | Some s \<Rightarrow> st\<lparr> leakageMon := map_option (removeMonitor s) (leakageMon st) \<rparr>);
             st2 = (if \<not> disposed st1
                    then
                      let st3 = st1\<lparr> listeners := map_option (filter (\<lambda>l. lid l \<noteq> i)) (listeners st1) \<rparr>;
                          hasListeners = (case listeners st3 of None \<Rightarrow> False | Some ls \<Rightarrow> ls \<noteq> [])
                      in call_hook (onLastListenerRemove (options st3) \<and> \<not> hasListeners) OnLastListenerRemove st3
                    else st1)
         in st2\<lparr> subs := filter (\<lambda>(j, _). j \<noteq> i) (subs st2) \<rparr>)"

text \<open>\<open>Emitter.dispose\<close>.\<close>

definition Emitter_dispose :: "'a Emitter \<Rightarrow> 'a Emitter" where
  "Emitter_dispose st =
    (if \<not> disposed st
     then
       let st1 = st\<lparr> disposed := True \<rparr>;
           st2 = (case listeners st1 of
                    None \<Rightarrow> st1
                  | Some ls \<Rightarrow> st1\<lparr> listeners := Some [], microtasks := microtasks st1 @ [map lid ls] \<rparr>);
           st3 = st2\<lparr> deliveryQueue := map_option (\<lambda>_. []) (deliveryQueue st2) \<rparr>;
           st4 = call_hook (onLastListenerRemove (options st3)) OnLastListenerRemove st3
       in st4\<lparr> leakageMon := map_option LeakageMonitor_dispose (leakageMon st4) \<rparr>
     else st)"

text \<open>The microtask queued by \<open>dispose\<close>: it unsets the subscriptions, still set, of the
  listeners the emitter had. \<open>run_microtasks\<close> runs all that are queued.\<close>

definition run_microtask :: "nat list \<Rightarrow> 'a Emitter \<Rightarrow> 'a Emitter" where
  "run_microtask ids st = st\<lparr> subs := filter (\<lambda>(j, _). j \<notin> set ids) (subs st) \<rparr>"

definition run_microtasks :: "'a Emitter \<Rightarrow> 'a Emitter" where
  "run_microtasks st = (fold run_microtask (microtasks st) st)\<lparr> microtasks := [] \<rparr>"

text \<open>\<open>this._perfMon?.start(this._deliveryQueue.size)\<close> and \<open>this._perfMon?.stop()\<close>.\<close>

definition perf_start :: "'a Emitter \<Rightarrow> 'a Emitter" where
  "perf_start st =
    st\<lparr> perfMon := map_option
          (EventProfiling_start (case deliveryQueue st of None \<Rightarrow> 0 | Some q \<Rightarrow> length q)) (perfMon st) \<rparr>"

definition perf_stop :: "'a Emitter \<Rightarrow> 'a Emitter" where
  "perf_stop st =
    (case perfMon st of
       None \<Rightarrow> st
     | Some p \<Rightarrow> let (p1, lines) = EventProfiling_stop p in st\<lparr> perfMon := Some p1, infos := infos st @ lines \<rparr>)"

text \<open>\<open>PauseableEmitter.pause\<close>.\<close>

definition pause :: "'a Emitter \<Rightarrow> 'a Emitter" where
  "pause st = st\<lparr> isPaused := isPaused st + 1 \<rparr>"

subsection \<open>The host's timer\<close>

text \<open>
  \<open>setTimeout\<close> belongs to the host, not to the sources. Its delay is a 32-bit
  quantity: Node.js runs the callback \<open>delay\<close> milliseconds later when
  \<open>1 \<le> delay \<le> 2^31 - 1\<close> and one millisecond later otherwise. That rule is what
  \<open>timeout_after\<close> is; on the range \<open>1 .. 2^31 - 1\<close> it is the delay itself, as in every
  host. Delays are whole milliseconds.
\<close>

definition TIMEOUT_MAX :: int where
  "TIMEOUT_MAX = 2147483647"

definition timeout_after :: "nat \<Rightarrow> nat" where
  "timeout_after d = (if 1 \<le> d \<and> int d \<le> TIMEOUT_MAX then d else 1)"

subsection \<open>Dispatch\<close>

text \<open>
  The methods that call listeners call each other: a listener may fire, pause or resume
  the emitter that is invoking it. They are one function \<open>exec\<close> over the call being
  made, recursive in the fuel; each branch is the body of one method.
  \<^item> \<open>Call_Emitter_fire\<close>: \<open>Emitter.fire\<close>; \<open>Call_drain\<close> is its \<open>while\<close> loop and
    \<open>Call_invoke\<close> the \<open>listener.invoke(event)\<close> inside \<open>try\<close>.
  \<^item> \<open>Call_run\<close>: the body of a callback, action by action.
  \<^item> \<open>Call_resume\<close>: \<open>PauseableEmitter.resume\<close>; \<open>Call_flush\<close> is its \<open>while\<close> loop.
  \<^item> \<open>Call_Pauseable_fire\<close>, \<open>Call_Debounce_fire\<close>: the overrides of \<open>fire\<close>.
  \<^item> \<open>Call_fire\<close>: the virtual call \<open>emitter.fire(event)\<close>, resolved by the class.

  The result is the state and the exception the call ended with, if any; only
  \<open>Call_invoke\<close> and \<open>Call_run\<close> can end with one. A method \<open>pause\<close> or \<open>resume\<close> called
  on a plain \<open>Emitter\<close> does not exist, which is a \<open>TypeError\<close> in the callback.
\<close>

datatype 'a call =
    Call_Emitter_fire 'a
  | Call_drain
  | Call_invoke "'a Listener" 'a
  | Call_run "'a action list"
  | Call_resume
  | Call_flush
  | Call_Pauseable_fire 'a
  | Call_Debounce_fire 'a
  | Call_fire 'a

primrec exec :: "nat \<Rightarrow> 'a call \<Rightarrow> 'a Emitter \<Rightarrow> ('a Emitter \<times> string option) option" where
  "exec 0 c st = None"
| "exec (Suc n) c st =
    (case c of
       Call_Emitter_fire event \<Rightarrow>
         (case listeners st of
            None \<Rightarrow> Some (st, None)
          | Some ls \<Rightarrow>
              let q = (case deliveryQueue st of None \<Rightarrow> [] | Some q \<Rightarrow> q);
                  st1 = st\<lparr> deliveryQueue := Some (q @ map (\<lambda>l. (l, event)) ls) \<rparr>
              in (case exec n Call_drain (perf_start st1) of
                    None \<Rightarrow> None
                  | Some (st2, _) \<Rightarrow> Some (perf_stop st2, None)))
     | Call_drain \<Rightarrow>
         (case deliveryQueue st of
            Some ((listener, event) # q) \<Rightarrow>
              (case exec n (Call_invoke listener event) (st\<lparr> deliveryQueue := Some q \<rparr>) of
                 None \<Rightarrow> None
               | Some (st1, None) \<Rightarrow> exec n Call_drain st1
               | Some (st1, Some e) \<Rightarrow> exec n Call_drain (onUnexpectedError e st1))
          | _ \<Rightarrow> Some (st, None))
     | Call_invoke listener event \<Rightarrow>
         exec n (Call_run (callback listener event))
           (st\<lparr> invoked := invoked st @ [(lid listener, event, now st)] \<rparr>)
     | Call_run acts \<Rightarrow>
         (case acts of
            [] \<Rightarrow> Some (st, None)
          | AThrow e # _ \<Rightarrow> Some (st, Some e)
          | AFire p # rest \<Rightarrow>
              (case exec n (Call_fire p) st of
                 None \<Rightarrow> None
               | Some (st1, _) \<Rightarrow> exec n (Call_run rest) st1)
          | ARelease i # rest \<Rightarrow> exec n (Call_run rest) (release st i)
          | ASubscribe cb site # rest \<Rightarrow> exec n (Call_run rest) (subscribe st cb site)
          | ADispose # rest \<Rightarrow> exec n (Call_run rest) (Emitter_dispose st)
          | APause # rest \<Rightarrow>
              if kind st = KEmitter then Some (st, Some ''TypeError: pause is not a function'')
              else exec n (Call_run rest) (pause st)
          | AResume # rest \<Rightarrow>
              if kind st = KEmitter then Some (st, Some ''TypeError: resume is not a function'')
              else (case exec n Call_resume st of
                      None \<Rightarrow> None
                    | Some (st1, _) \<Rightarrow> exec n (Call_run rest) st1))
     | Call_resume \<Rightarrow>
         (if isPaused st \<noteq> 0
          then
            let st1 = st\<lparr> isPaused := isPaused st - 1 \<rparr> in
            if isPaused st1 = 0
            then (case mergeFn st1 of
                    Some merge \<Rightarrow>
                      let events = eventQueue st1 in
                      exec n (Call_Emitter_fire (merge events)) (st1\<lparr> eventQueue := [] \<rparr>)
                  | None \<Rightarrow> exec n Call_flush st1)
            else Some (st1, None)
          else Some (st, None))
     | Call_flush \<Rightarrow>
         (if isPaused st = 0
          then (case eventQueue st of
                  [] \<Rightarrow> Some (st, None)
                | e # rest \<Rightarrow>
                    (case exec n (Call_Emitter_fire e) (st\<lparr> eventQueue := rest \<rparr>) of
                       None \<Rightarrow> None
                     | Some (st1, _) \<Rightarrow> exec n Call_flush st1))
          else Some (st, None))
     | Call_Pauseable_fire event \<Rightarrow>
         (case listeners st of
            None \<Rightarrow> Some (st, None)
          | Some _ \<Rightarrow>
              if isPaused st \<noteq> 0 then Some (st\<lparr> eventQueue := eventQueue st @ [event] \<rparr>, None)
              else exec n (Call_Emitter_fire event) st)
     | Call_Debounce_fire event \<Rightarrow>
         (let st1 = (if handle st = None
                     then (pause st)\<lparr> handle := Some (now st + timeout_after (delay st)) \<rparr>
                     else st)
          in exec n (Call_Pauseable_fire event) st1)
     | Call_fire event \<Rightarrow>
         (case kind st of
            KEmitter \<Rightarrow> exec n (Call_Emitter_fire event) st
          | KPauseable \<Rightarrow> exec n (Call_Pauseable_fire event) st
          | KDebounce \<Rightarrow> exec n (Call_Debounce_fire event) st))"

text \<open>The methods by their names.\<close>

definition Emitter_fire :: "nat \<Rightarrow> 'a Emitter \<Rightarrow> 'a \<Rightarrow> 'a Emitter option" where
  "Emitter_fire n st event = map_option fst (exec n (Call_Emitter_fire event) st)"

definition drain :: "nat \<Rightarrow> 'a Emitter \<Rightarrow> 'a Emitter option" where
  "drain n st = map_option fst (exec n Call_drain st)"

definition PauseableEmitter_resume :: "nat \<Rightarrow> 'a Emitter \<Rightarrow> 'a Emitter option" where
  "PauseableEmitter_resume n st = map_option fst (exec n Call_resume st)"

definition PauseableEmitter_fire :: "nat \<Rightarrow> 'a Emitter \<Rightarrow> 'a \<Rightarrow> 'a Emitter option" where
  "PauseableEmitter_fire n st event = map_option fst (exec n (Call_Pauseable_fire event) st)"

definition DebounceEmitter_fire :: "nat \<Rightarrow> 'a Emitter \<Rightarrow> 'a \<Rightarrow> 'a Emitter option" where
  "DebounceEmitter_fire n st event = map_option fst (exec n (Call_Debounce_fire event) st)"

subsection \<open>Timers and the sequence of calls made on an emitter\<close>

text \<open>The callback \<open>DebounceEmitter.fire\<close> gives to \<open>setTimeout\<close>.\<close>

definition timer_callback :: "nat \<Rightarrow> 'a Emitter \<Rightarrow> 'a Emitter option" where
  "timer_callback n st = PauseableEmitter_resume n (st\<lparr> handle := None \<rparr>)"

text \<open>Time passes until \<open>t\<close>: the queued microtasks run, then the timer if it is due by
  then, at the time it is due (and again, as often as a listener sets it anew).\<close>

primrec advance :: "nat \<Rightarrow> nat \<Rightarrow> 'a Emitter \<Rightarrow> 'a Emitter option" where
  "advance 0 t st = None"
| "advance (Suc n) t st =
    (let st0 = run_microtasks st in
     case handle st0 of
       None \<Rightarrow> Some (st0\<lparr> now := max (now st0) t \<rparr>)
     | Some due \<Rightarrow>
         if due \<le> t
         then (case timer_callback n (st0\<lparr> now := max (now st0) due \<rparr>) of
                 None \<Rightarrow> None
               | Some st1 \<Rightarrow> advance n t st1)
         else Some (st0\<lparr> now := max (now st0) t \<rparr>))"

text \<open>What the owner of an emitter does with it, from outside any listener: a call on
  the emitter (\<open>Do\<close>), the end of the current job (\<open>Microtasks\<close>), waiting (\<open>Advance\<close>),
  and a change of the process-wide threshold.\<close>

datatype 'a op = Do "'a action" | Microtasks | Advance nat | SetGlobal rat

primrec run_ops :: "nat \<Rightarrow> 'a op list \<Rightarrow> 'a Emitter \<Rightarrow> 'a Emitter option" where
  "run_ops n [] st = Some st"
| "run_ops n (x # ops) st =
    (case x of
       Do a \<Rightarrow> (case exec n (Call_run [a]) st of None \<Rightarrow> None | Some (st1, _) \<Rightarrow> run_ops n ops st1)
     | Microtasks \<Rightarrow> run_ops n ops (run_microtasks st)
     | Advance t \<Rightarrow> (case advance n t st of None \<Rightarrow> None | Some st1 \<Rightarrow> run_ops n ops st1)
     | SetGlobal g \<Rightarrow> run_ops n ops (setGlobalLeakWarningThreshold g st))"

text \<open>Fires at given times, in the order of the list.\<close>

definition burst :: "(nat \<times> 'a) list \<Rightarrow> 'a op list" where
  "burst fires = concat (map (\<lambda>(t, p). [Advance t, Do (AFire p)]) fires)"

subsection \<open>Scripts that do not dispatch\<close>

text \<open>A script is quiet when it neither fires, resumes nor disposes: it cannot reach the
  delivery queue. On such a script the run of a callback is a plain function.\<close>

primrec quiet_action :: "'a action \<Rightarrow> bool" where
  "quiet_action (AFire p) = False"
| "quiet_action (ARelease i) = True"
| "quiet_action (ASubscribe cb site) = True"
| "quiet_action ADispose = False"
| "quiet_action APause = True"
| "quiet_action AResume = False"
| "quiet_action (AThrow e) = True"

definition quiet :: "'a action list \<Rightarrow> bool" where
  "quiet acts = list_all quiet_action acts"

text \<open>A script is inert when all it may do is throw.\<close>

primrec inert_action :: "'a action \<Rightarrow> bool" where
  "inert_action (AFire p) = False"
| "inert_action (ARelease i) = False"
| "inert_action (ASubscribe cb site) = False"
| "inert_action ADispose = False"
| "inert_action APause = False"
| "inert_action AResume = False"
| "inert_action (AThrow e) = True"

definition inert :: "'a action list \<Rightarrow> bool" where
  "inert acts = list_all inert_action acts"

text \<open>The exception a quiet script ends with, on an emitter of class \<open>k\<close>.\<close>

primrec thrown :: "kind \<Rightarrow> 'a action list \<Rightarrow> string option" where
  "thrown k [] = None"
| "thrown k (a # rest) =
    (case a of
       AThrow e \<Rightarrow> Some e
     | APause \<Rightarrow> if k = KEmitter then Some ''TypeError: pause is not a function'' else thrown k rest
     | _ \<Rightarrow> thrown k rest)"

primrec quiet_run :: "'a action list \<Rightarrow> 'a Emitter \<Rightarrow> 'a Emitter" where
  "quiet_run [] st = st"
| "quiet_run (a # rest) st =
    (case a of
       AThrow e \<Rightarrow> st
     | ARelease i \<Rightarrow> quiet_run rest (release st i)
     | ASubscribe cb site \<Rightarrow> quiet_run rest (subscribe st cb site)
     | APause \<Rightarrow> if kind st = KEmitter then st else quiet_run rest (pause st)
     | _ \<Rightarrow> st)"

text \<open>The loop of \<open>Emitter.fire\<close> over a queue of entries with quiet scripts.\<close>

primrec quiet_drain :: "('a Listener \<times> 'a) list \<Rightarrow> 'a Emitter \<Rightarrow> 'a Emitter" where
  "quiet_drain [] st = st"
| "quiet_drain (x # q) st =
    (let st1 = quiet_run (callback (fst x) (snd x))
                 (st\<lparr> deliveryQueue := Some q, invoked := invoked st @ [(lid (fst x), snd x, now st)] \<rparr>)
     in quiet_drain q (case thrown (kind st) (callback (fst x) (snd x)) of
                         None \<Rightarrow> st1
                       | Some e \<Rightarrow> onUnexpectedError e st1))"

text \<open>The invocations of listener \<open>i\<close> in a log.\<close>

definition invocations_of :: "nat \<Rightarrow> (nat \<times> 'a \<times> nat) list \<Rightarrow> (nat \<times> 'a \<times> nat) list" where
  "invocations_of i entries = filter (\<lambda>x. fst x = i) entries"

text \<open>The numbers of the listeners in the listener list and in the delivery queue.\<close>

definition listener_ids :: "'a Emitter \<Rightarrow> nat set" where
  "listener_ids st = (case listeners st of None \<Rightarrow> {} | Some ls \<Rightarrow> lid ` set ls)"

definition queued_ids :: "'a Emitter \<Rightarrow> nat set" where
  "queued_ids st = (case deliveryQueue st of None \<Rightarrow> {} | Some q \<Rightarrow> (\<lambda>x. lid (fst x)) ` set q)"

subsection \<open>An emitter at rest\<close>

text \<open>No listener and no entry waiting in the delivery queue.\<close>

definition drained :: "'a Emitter \<Rightarrow> bool" where
  "drained st \<longleftrightarrow>
     (listeners st = None \<or> listeners st = Some []) \<and>
     (deliveryQueue st = None \<or> deliveryQueue st = Some [])"

text \<open>The calls of the owner that are not subscriptions.\<close>

primrec no_subscribe :: "'a op \<Rightarrow> bool" where
  "no_subscribe (Do a) = (case a of ASubscribe cb site \<Rightarrow> False | _ \<Rightarrow> True)"
| "no_subscribe Microtasks = True"
| "no_subscribe (Advance t) = True"
| "no_subscribe (SetGlobal g) = True"

text \<open>The calls that cannot lead to a subscription, as long as no listener runs.\<close>

primrec no_subscribe_call :: "'a call \<Rightarrow> bool" where
  "no_subscribe_call (Call_Emitter_fire e) = True"
| "no_subscribe_call Call_drain = True"
| "no_subscribe_call (Call_invoke l e) = False"
| "no_subscribe_call (Call_run acts) = list_all (\<lambda>a. no_subscribe (Do a)) acts"
| "no_subscribe_call Call_resume = True"
| "no_subscribe_call Call_flush = True"
| "no_subscribe_call (Call_Pauseable_fire e) = True"
| "no_subscribe_call (Call_Debounce_fire e) = True"
| "no_subscribe_call (Call_fire e) = True"

subsection \<open>A listener that has left\<close>

text \<open>Listener \<open>i\<close> has been created and is neither in the listener list nor in the
  delivery queue.\<close>

definition absent :: "nat \<Rightarrow> 'a Emitter \<Rightarrow> bool" where
  "absent i st \<longleftrightarrow> i \<notin> listener_ids st \<and> i \<notin> queued_ids st \<and> i < nextId st"

text \<open>The calls other than an invocation of listener \<open>i\<close>.\<close>

definition other_call :: "nat \<Rightarrow> 'a call \<Rightarrow> bool" where
  "other_call i c = (case c of Call_invoke l e \<Rightarrow> lid l \<noteq> i | _ \<Rightarrow> True)"

subsection \<open>Callbacks that only pause or throw\<close>

text \<open>A script is calm when all it does is pause the emitter and throw. \<open>pauses k acts\<close>
  is the number of times a calm script pauses an emitter of class \<open>k\<close> before it ends.\<close>

primrec calm_action :: "'a action \<Rightarrow> bool" where
  "calm_action (AFire p) = False"
| "calm_action (ARelease i) = False"
| "calm_action (ASubscribe cb site) = False"
| "calm_action ADispose = False"
| "calm_action APause = True"
| "calm_action AResume = False"
| "calm_action (AThrow e) = True"

definition calm :: "'a action list \<Rightarrow> bool" where
  "calm acts = list_all calm_action acts"

primrec pauses :: "kind \<Rightarrow> 'a action list \<Rightarrow> nat" where
  "pauses k [] = 0"
| "pauses k (a # rest) =
    (case a of
       APause \<Rightarrow> if k = KEmitter then 0 else Suc (pauses k rest)
     | AThrow e \<Rightarrow> 0
     | _ \<Rightarrow> pauses k rest)"

text \<open>One payload handed to every listener of the list, in order.\<close>

definition emission :: "'a Listener list \<Rightarrow> nat \<Rightarrow> 'a \<Rightarrow> (nat \<times> 'a \<times> nat) list" where
  "emission ls t p = map (\<lambda>l. (lid l, p, t)) ls"


subsection \<open>AsyncEmitter\<close>

text \<open>
  \<open>AsyncEmitter\<close> extends \<open>Emitter\<close> by the method \<open>fireAsync\<close> and its own queue; of the
  fields it inherits the method reads \<open>_listeners\<close> only, which is \<open>a_listeners\<close> here.
  \<open>fireAsync\<close> is embedded for one call that runs alone on its emitter: no other
  \<open>fireAsync\<close> is pending on it and no listener touches the emitter. The
  callback of a listener is a script of the two things the method is about: joining a
  promise with \<open>waitUntil\<close>, and throwing. Time is a clock in milliseconds, and the
  synchronous run of a callback takes none. A promise is known by how long after the
  start of the listener's turn it settles (\<open>Some 0\<close> when it is settled already, \<open>None\<close>
  when it never settles) and by the reason with which it rejects, if it does.
\<close>

record promise =
  settles_after :: "nat option"
  rejection :: "string option"

datatype async_action = WaitUntil promise | AsyncThrow string

record 'd AsyncListener =
  a_lid :: nat
  a_callback :: "'d \<Rightarrow> async_action list"

text \<open>The array \<open>thenables\<close> of one turn and whether \<open>Object.freeze\<close> has been applied
  to it: the state on which the closure \<open>waitUntil\<close> of that turn works.\<close>

record turn =
  thenables :: "promise list"
  frozen :: bool

definition new_turn :: turn where
  "new_turn = \<lparr> thenables = [], frozen = False \<rparr>"

text \<open>\<open>promiseJoin\<close> is the optional third argument of \<open>fireAsync\<close>; the number of the
  listener stands for \<open>listener.callback\<close>.\<close>

definition joined :: "(promise \<Rightarrow> nat \<Rightarrow> promise) option \<Rightarrow> nat \<Rightarrow> promise \<Rightarrow> promise" where
  "joined promiseJoin listener p = (case promiseJoin of None \<Rightarrow> p | Some join \<Rightarrow> join p listener)"

text \<open>The closure \<open>waitUntil\<close> of the event handed to a listener. \<open>Inl\<close> is the error it
  throws.\<close>

definition waitUntil ::
  "(promise \<Rightarrow> nat \<Rightarrow> promise) option \<Rightarrow> nat \<Rightarrow> turn \<Rightarrow> promise \<Rightarrow> string + turn" where
  "waitUntil promiseJoin listener t p =
    (if frozen t then Inl ''waitUntil can NOT be called asynchronous''
     else Inr (t\<lparr> thenables := thenables t @ [joined promiseJoin listener p] \<rparr>))"

text \<open>\<open>listener.invoke(event)\<close>: the synchronous run of the callback. The result is the
  turn, and the exception with which the callback ended, if it did.\<close>

primrec run_sync ::
  "(promise \<Rightarrow> nat \<Rightarrow> promise) option \<Rightarrow> nat \<Rightarrow> async_action list \<Rightarrow> turn \<Rightarrow> turn \<times> string option" where
  "run_sync promiseJoin listener [] t = (t, None)"
| "run_sync promiseJoin listener (a # rest) t =
    (case a of
       AsyncThrow e \<Rightarrow> (t, Some e)
     | WaitUntil p \<Rightarrow>
         (case waitUntil promiseJoin listener t p of
            Inl e \<Rightarrow> (t, Some e)
          | Inr t1 \<Rightarrow> run_sync promiseJoin listener rest t1))"

text \<open>Modelled from the spec: the cancellation token of vs/base/common/cancellation is
  not among the sources; a token exposes a poll for "cancellation requested". Here a
  token is the time from which the poll answers yes, if there is one.\<close>

definition isCancellationRequested :: "nat option \<Rightarrow> nat \<Rightarrow> bool" where
  "isCancellationRequested token t = (case token of None \<Rightarrow> False | Some c \<Rightarrow> c \<le> t)"

text \<open>The time at which \<open>Promise.allSettled(thenables)\<close> is settled, for a wait that
  starts at \<open>t\<close>: \<open>None\<close> when one of the promises never settles. And the reasons of
  the rejected ones, in the order of the array.\<close>

definition allSettled_at :: "promise list \<Rightarrow> nat \<Rightarrow> nat option" where
  "allSettled_at ps t =
     (case those (map settles_after ps) of
        None \<Rightarrow> None
      | Some ds \<Rightarrow> Some (fold max (map (\<lambda>d. t + d) ds) t))"

definition rejections :: "promise list \<Rightarrow> string list" where
  "rejections ps = List.map_filter rejection ps"

text \<open>What is recorded of one pass of the loop: the listener invoked, the data and
  the time of the call, the exception with which the call ended, and the turn as the
  loop leaves it.\<close>

record 'd invocation =
  inv_listener :: nat
  inv_data :: 'd
  inv_time :: nat
  inv_turn :: turn
  inv_threw :: "string option"

record 'd AsyncEmitter =
  a_listeners :: "'d AsyncListener list option"
  asyncDeliveryQueue :: "('d AsyncListener \<times> 'd) list option"
  a_now :: nat
  a_errors :: "string list"
  a_log :: "'d invocation list"

text \<open>
  The \<open>while\<close> loop of \<open>fireAsync\<close>, over the entries of the queue; what is left of the
  queue is stored when the loop stops. The second component of the result says
  whether the promise of \<open>fireAsync\<close> resolves: it does not when the loop awaits a
  promise that never settles, and the state is then the one in which it waits for
  ever. Nothing rejects that promise: \<open>Promise.allSettled\<close> never rejects, and an
  exception of a listener is caught.
\<close>

primrec fireAsync_loop ::
  "nat option \<Rightarrow> (promise \<Rightarrow> nat \<Rightarrow> promise) option \<Rightarrow> ('d AsyncListener \<times> 'd) list \<Rightarrow>
   'd AsyncEmitter \<Rightarrow> 'd AsyncEmitter \<times> bool" where
  "fireAsync_loop token promiseJoin [] st = (st\<lparr> asyncDeliveryQueue := Some [] \<rparr>, True)"
| "fireAsync_loop token promiseJoin (x # q) st =
    (if isCancellationRequested token (a_now st)
     then (st\<lparr> asyncDeliveryQueue := Some (x # q) \<rparr>, True)
     else
       let listener = fst x; data = snd x;
           (t, r) = run_sync promiseJoin (a_lid listener) (a_callback listener data) new_turn
       in case r of
            Some e \<Rightarrow>
              fireAsync_loop token promiseJoin q
                (st\<lparr> a_errors := a_errors st @ [e],
                     a_log := a_log st @
                       [\<lparr> inv_listener = a_lid listener, inv_data = data, inv_time = a_now st,
                          inv_turn = t, inv_threw = Some e \<rparr>] \<rparr>)
          | None \<Rightarrow>
              let t1 = t\<lparr> frozen := True \<rparr>;
                  st1 = st\<lparr> a_log := a_log st @
                       [\<lparr> inv_listener = a_lid listener, inv_data = data, inv_time = a_now st,
                          inv_turn = t1, inv_threw = None \<rparr>] \<rparr>
              in (case allSettled_at (thenables t1) (a_now st) of
                    None \<Rightarrow> (st1\<lparr> asyncDeliveryQueue := Some q \<rparr>, False)
                  | Some settled \<Rightarrow>
                      fireAsync_loop token promiseJoin q
                        (st1\<lparr> a_now := settled,
                              a_errors := a_errors st1 @ rejections (thenables t1) \<rparr>)))"

definition fireAsync ::
  "nat option \<Rightarrow> (promise \<Rightarrow> nat \<Rightarrow> promise) option \<Rightarrow> 'd \<Rightarrow> 'd AsyncEmitter \<Rightarrow>
   'd AsyncEmitter \<times> bool" where
  "fireAsync token promiseJoin data st =
    (case a_listeners st of
       None \<Rightarrow> (st, True)
     | Some ls \<Rightarrow>
         fireAsync_loop token promiseJoin
           ((case asyncDeliveryQueue st of None \<Rightarrow> [] | Some q \<Rightarrow> q) @ map (\<lambda>l. (l, data)) ls) st)"

text \<open>For the statements about \<open>fireAsync\<close>: the promises a script passes to \<open>waitUntil\<close>
  and the exception it ends with; whether a promise joined in a turn that started at
  \<open>t0\<close> has settled at time \<open>t\<close>; and what one pass of the loop sends to the error sink.\<close>

primrec waited :: "async_action list \<Rightarrow> promise list" where
  "waited [] = []"
| "waited (a # rest) = (case a of WaitUntil p \<Rightarrow> p # waited rest | AsyncThrow e \<Rightarrow> [])"

primrec raised :: "async_action list \<Rightarrow> string option" where
  "raised [] = None"
| "raised (a # rest) = (case a of WaitUntil p \<Rightarrow> raised rest | AsyncThrow e \<Rightarrow> Some e)"

definition settled_by :: "promise \<Rightarrow> nat \<Rightarrow> nat \<Rightarrow> bool" where
  "settled_by p t0 t = (case settles_after p of None \<Rightarrow> False | Some d \<Rightarrow> t0 + d \<le> t)"

definition reported :: "'d invocation \<Rightarrow> string list" where
  "reported e =
     (case inv_threw e of
        Some x \<Rightarrow> [x]
      | None \<Rightarrow>
          (case allSettled_at (thenables (inv_turn e)) (inv_time e) of
             None \<Rightarrow> []
           | Some t \<Rightarrow> rejections (thenables (inv_turn e))))"

text \<open>What the loop records of the queue entry \<open>x\<close> when it invokes its listener.\<close>

definition logged ::
  "(promise \<Rightarrow> nat \<Rightarrow> promise) option \<Rightarrow> 'd AsyncListener \<times> 'd \<Rightarrow> 'd invocation \<Rightarrow> bool" where
  "logged promiseJoin x e =
     (inv_listener e = a_lid (fst x) \<and> inv_data e = snd x \<and>
      thenables (inv_turn e)
        = map (joined promiseJoin (a_lid (fst x))) (waited (a_callback (fst x) (snd x))) \<and>
      inv_threw e = raised (a_callback (fst x) (snd x)) \<and>
      frozen (inv_turn e) = (inv_threw e = None))"

subsection \<open>Concrete emitters\<close>

text \<open>Options with no hook, no profiler and no leak threshold of their own.\<close>

definition plain_options :: EmitterOptions where
  "plain_options = \<lparr> onFirstListenerAdd = False, onFirstListenerDidAdd = False,
     onListenerDidAdd = False, onLastListenerRemove = False,
     leakWarningThreshold = None, profName = None \<rparr>"

text \<open>The same with a per-instance leak threshold of 1.\<close>

definition opts_threshold_1 :: EmitterOptions where
  "opts_threshold_1 = \<lparr> onFirstListenerAdd = False, onFirstListenerDidAdd = False,
     onListenerDidAdd = False, onLastListenerRemove = False,
     leakWarningThreshold = Some 1, profName = None \<rparr>"


text \<open>The same with a per-instance leak threshold of 0.\<close>

definition opts_threshold_0 :: EmitterOptions where
  "opts_threshold_0 = \<lparr> onFirstListenerAdd = False, onFirstListenerDidAdd = False,
     onListenerDidAdd = False, onLastListenerRemove = False,
     leakWarningThreshold = Some 0, profName = None \<rparr>"


text \<open>An emitter with three listeners, the second of which throws.\<close>

definition three_listeners :: "nat Emitter" where
  "three_listeners =
     subscribe (subscribe (subscribe (Emitter_new (-1) plain_options) (\<lambda>p. []) ''a'')
       (\<lambda>p. [AThrow ''boom'']) ''b'') (\<lambda>p. []) ''c''"

text \<open>An emitter with two listeners in the middle of a dispatch of the payload 7: the
  first listener has been taken from the delivery queue, the entry of the second is
  still waiting.\<close>

definition mid_dispatch :: "nat Emitter" where
  "mid_dispatch =
     (subscribe (subscribe (Emitter_new (-1) plain_options) (\<lambda>p. []) ''a'') (\<lambda>p. []) ''b'')
       \<lparr> deliveryQueue := Some [(\<lparr> lid = 1, callback = \<lambda>p. [], stack = None \<rparr>, 7)] \<rparr>"

text \<open>A pausable emitter without merge function and with two listeners; the second
  pauses the emitter when it receives the payload 2.\<close>

definition pausable_two :: "nat Emitter" where
  "pausable_two =
     subscribe (subscribe (PauseableEmitter_new (-1) plain_options None) (\<lambda>p. []) ''a'')
       (\<lambda>p. if p = 2 then [APause] else []) ''b''"

text \<open>A pausable emitter without merge function and with one listener that does nothing.\<close>

definition pausable_plain :: "nat Emitter" where
  "pausable_plain = subscribe (PauseableEmitter_new (-1) plain_options None) (\<lambda>p. []) ''a''"

text \<open>A debounce emitter with a delay of 50 whose merge function counts the payloads,
  with one listener that does nothing.\<close>

definition debounce_count :: "nat Emitter" where
  "debounce_count = subscribe (DebounceEmitter_new (-1) plain_options length (Some 50)) (\<lambda>p. []) ''a''"


text \<open>An async emitter with two listeners at time 0. The first joins a promise that
  rejects after 30 and then throws; the second joins a promise that resolves after 20.\<close>

definition async_two :: "nat AsyncEmitter" where
  "async_two =
     \<lparr> a_listeners = Some
         [\<lparr> a_lid = 0, a_callback = \<lambda>d. [WaitUntil \<lparr> settles_after = Some 30, rejection = Some ''late'' \<rparr>,
                                          AsyncThrow ''boom''] \<rparr>,
          \<lparr> a_lid = 1, a_callback = \<lambda>d. [WaitUntil \<lparr> settles_after = Some 20, rejection = None \<rparr>] \<rparr>],
       asyncDeliveryQueue = None, a_now = 0, a_errors = [], a_log = [] \<rparr>"

text \<open>The same, but the first listener does not throw.\<close>

definition async_two_calm :: "nat AsyncEmitter" where
  "async_two_calm =
     \<lparr> a_listeners = Some
         [\<lparr> a_lid = 0, a_callback = \<lambda>d. [WaitUntil \<lparr> settles_after = Some 30, rejection = Some ''late'' \<rparr>] \<rparr>,
          \<lparr> a_lid = 1, a_callback = \<lambda>d. [WaitUntil \<lparr> settles_after = Some 20, rejection = None \<rparr>] \<rparr>],
       asyncDeliveryQueue = None, a_now = 0, a_errors = [], a_log = [] \<rparr>"

section \<open>Properties\<close>

subsection \<open>Fuel\<close>


lemma exec_mono_eq: "n \<le> m \<Longrightarrow> exec n c st \<noteq> None \<Longrightarrow> exec m c st = exec n c st"
proof (induction n arbitrary: m c st)
  case 0 then show ?case by simp
next
  case (Suc n)
  then obtain m' where m: "m = Suc m'" "n \<le> m'" by (cases m) auto
  note IH = Suc.IH[OF m(2)]
  show ?case
  proof (cases c)
    case (Call_Emitter_fire e)
    then show ?thesis using Suc.prems(2) m
      by (auto simp: IH Let_def split: option.splits prod.splits)
  next
    case Call_drain
    then show ?thesis using Suc.prems(2) m
      by (auto simp: IH Let_def split: option.splits prod.splits list.splits)
  next
    case (Call_invoke l e)
    then show ?thesis using Suc.prems(2) m by (auto simp: IH)
  next
    case (Call_run acts)
    then show ?thesis using Suc.prems(2) m
      by (auto simp: IH Let_def split: option.splits prod.splits list.splits action.splits if_splits)
  next
    case Call_resume
    then show ?thesis using Suc.prems(2) m
      by (auto simp: IH Let_def split: option.splits prod.splits list.splits if_splits)
  next
    case Call_flush
    then show ?thesis using Suc.prems(2) m
      by (auto simp: IH Let_def split: option.splits prod.splits list.splits if_splits)
  next
    case (Call_Pauseable_fire e)
    then show ?thesis using Suc.prems(2) m
      by (auto simp: IH Let_def split: option.splits prod.splits list.splits if_splits)
  next
    case (Call_Debounce_fire e)
    then show ?thesis using Suc.prems(2) m
      by (auto simp: IH Let_def split: option.splits prod.splits list.splits if_splits)
  next
    case (Call_fire e)
    then show ?thesis using Suc.prems(2) m
      by (auto simp: IH Let_def split: option.splits prod.splits list.splits if_splits kind.splits)
  qed
qed

lemma exec_mono: "exec n c st = Some r \<Longrightarrow> n \<le> m \<Longrightarrow> exec m c st = Some r"
  using exec_mono_eq[of n m c st] by simp

subsection \<open>What each step leaves alone\<close>

lemma release_frame [simp]:
  "options (release st i) = options st"
  "perfMon (release st i) = perfMon st"
  "disposed (release st i) = disposed st"
  "deliveryQueue (release st i) = deliveryQueue st"
  "isPaused (release st i) = isPaused st"
  "eventQueue (release st i) = eventQueue st"
  "mergeFn (release st i) = mergeFn st"
  "delay (release st i) = delay st"
  "handle (release st i) = handle st"
  "kind (release st i) = kind st"
  "globalLeakWarningThreshold (release st i) = globalLeakWarningThreshold st"
  "nextId (release st i) = nextId st"
  "microtasks (release st i) = microtasks st"
  "now (release st i) = now st"
  "invoked (release st i) = invoked st"
  "errors (release st i) = errors st"
  "warnings (release st i) = warnings st"
  "infos (release st i) = infos st"
  by (simp_all add: release_def call_hook_def Let_def split: option.splits)

lemma subscribe_frame [simp]:
  "options (subscribe st cb site) = options st"
  "perfMon (subscribe st cb site) = perfMon st"
  "disposed (subscribe st cb site) = disposed st"
  "deliveryQueue (subscribe st cb site) = deliveryQueue st"
  "isPaused (subscribe st cb site) = isPaused st"
  "eventQueue (subscribe st cb site) = eventQueue st"
  "mergeFn (subscribe st cb site) = mergeFn st"
  "delay (subscribe st cb site) = delay st"
  "handle (subscribe st cb site) = handle st"
  "kind (subscribe st cb site) = kind st"
  "globalLeakWarningThreshold (subscribe st cb site) = globalLeakWarningThreshold st"
  "microtasks (subscribe st cb site) = microtasks st"
  "now (subscribe st cb site) = now st"
  "invoked (subscribe st cb site) = invoked st"
  "errors (subscribe st cb site) = errors st"
  "infos (subscribe st cb site) = infos st"
  "nextId (subscribe st cb site) = nextId st + 1"
  by (simp_all add: subscribe_def call_hook_def Let_def split: option.splits prod.splits)

lemma dispose_frame [simp]:
  "options (Emitter_dispose st) = options st"
  "perfMon (Emitter_dispose st) = perfMon st"
  "isPaused (Emitter_dispose st) = isPaused st"
  "eventQueue (Emitter_dispose st) = eventQueue st"
  "mergeFn (Emitter_dispose st) = mergeFn st"
  "delay (Emitter_dispose st) = delay st"
  "handle (Emitter_dispose st) = handle st"
  "kind (Emitter_dispose st) = kind st"
  "globalLeakWarningThreshold (Emitter_dispose st) = globalLeakWarningThreshold st"
  "nextId (Emitter_dispose st) = nextId st"
  "subs (Emitter_dispose st) = subs st"
  "now (Emitter_dispose st) = now st"
  "invoked (Emitter_dispose st) = invoked st"
  "errors (Emitter_dispose st) = errors st"
  "warnings (Emitter_dispose st) = warnings st"
  "infos (Emitter_dispose st) = infos st"
  by (simp_all add: Emitter_dispose_def call_hook_def Let_def split: option.splits)

lemma perf_frame [simp]:
  "options (perf_start st) = options st"
  "leakageMon (perf_start st) = leakageMon st"
  "disposed (perf_start st) = disposed st"
  "deliveryQueue (perf_start st) = deliveryQueue st"
  "listeners (perf_start st) = listeners st"
  "isPaused (perf_start st) = isPaused st"
  "eventQueue (perf_start st) = eventQueue st"
  "mergeFn (perf_start st) = mergeFn st"
  "delay (perf_start st) = delay st"
  "handle (perf_start st) = handle st"
  "kind (perf_start st) = kind st"
  "globalLeakWarningThreshold (perf_start st) = globalLeakWarningThreshold st"
  "nextId (perf_start st) = nextId st"
  "subs (perf_start st) = subs st"
  "microtasks (perf_start st) = microtasks st"
  "now (perf_start st) = now st"
  "invoked (perf_start st) = invoked st"
  "errors (perf_start st) = errors st"
  "warnings (perf_start st) = warnings st"
  "hooks (perf_start st) = hooks st"
  "infos (perf_start st) = infos st"
  "options (perf_stop st) = options st"
  "leakageMon (perf_stop st) = leakageMon st"
  "disposed (perf_stop st) = disposed st"
  "deliveryQueue (perf_stop st) = deliveryQueue st"
  "listeners (perf_stop st) = listeners st"
  "isPaused (perf_stop st) = isPaused st"
  "eventQueue (perf_stop st) = eventQueue st"
  "mergeFn (perf_stop st) = mergeFn st"
  "delay (perf_stop st) = delay st"
  "handle (perf_stop st) = handle st"
  "kind (perf_stop st) = kind st"
  "globalLeakWarningThreshold (perf_stop st) = globalLeakWarningThreshold st"
  "nextId (perf_stop st) = nextId st"
  "subs (perf_stop st) = subs st"
  "microtasks (perf_stop st) = microtasks st"
  "now (perf_stop st) = now st"
  "invoked (perf_stop st) = invoked st"
  "errors (perf_stop st) = errors st"
  "warnings (perf_stop st) = warnings st"
  "hooks (perf_stop st) = hooks st"
  by (simp_all add: perf_start_def perf_stop_def Let_def split: option.splits prod.splits)

lemma leakageMon_None_steps [simp]:
  "leakageMon st = None \<Longrightarrow> leakageMon (release st i) = None"
  "leakageMon st = None \<Longrightarrow> leakageMon (subscribe st cb site) = None"
  "leakageMon st = None \<Longrightarrow> warnings (subscribe st cb site) = warnings st"
  "leakageMon st = None \<Longrightarrow> leakageMon (Emitter_dispose st) = None"
  by (simp_all add: release_def subscribe_def Emitter_dispose_def call_hook_def Let_def
      split: option.splits prod.splits)

lemma exec_no_monitor:
  "exec n c st = Some (st', x) \<Longrightarrow> leakageMon st = None \<Longrightarrow>
     leakageMon st' = None \<and> warnings st' = warnings st"
proof (induction n arbitrary: c st st' x)
  case 0 then show ?case by simp
next
  case (Suc n)
  note IH = Suc.IH
  show ?case
  proof (cases c)
    case (Call_Emitter_fire e)
    then show ?thesis using Suc.prems
      by (auto simp: Let_def split: option.splits prod.splits dest!: IH)
  next
    case Call_drain
    then show ?thesis using Suc.prems
      by (auto simp: Let_def onUnexpectedError_def split: option.splits prod.splits list.splits dest!: IH)
  next
    case (Call_invoke l e)
    then show ?thesis using Suc.prems by (auto dest!: IH)
  next
    case (Call_run acts)
    then show ?thesis using Suc.prems
      by (auto simp: Let_def pause_def split: option.splits prod.splits list.splits action.splits if_splits dest!: IH)
  next
    case Call_resume
    then show ?thesis using Suc.prems
      by (auto simp: Let_def split: option.splits prod.splits list.splits if_splits dest!: IH)
  next
    case Call_flush
    then show ?thesis using Suc.prems
      by (auto simp: Let_def split: option.splits prod.splits list.splits if_splits dest!: IH)
  next
    case (Call_Pauseable_fire e)
    then show ?thesis using Suc.prems
      by (auto simp: Let_def split: option.splits prod.splits list.splits if_splits dest!: IH)
  next
    case (Call_Debounce_fire e)
    then show ?thesis using Suc.prems
      by (auto simp: Let_def pause_def split: option.splits prod.splits list.splits if_splits dest!: IH)
  next
    case (Call_fire e)
    then show ?thesis using Suc.prems
      by (auto simp: Let_def split: option.splits prod.splits list.splits if_splits kind.splits dest!: IH)
  qed
qed


lemma run_microtask_fold_frame:
  "options (fold run_microtask ms st) = options st \<and>
   leakageMon (fold run_microtask ms st) = leakageMon st \<and>
   perfMon (fold run_microtask ms st) = perfMon st \<and>
   disposed (fold run_microtask ms st) = disposed st \<and>
   deliveryQueue (fold run_microtask ms st) = deliveryQueue st \<and>
   listeners (fold run_microtask ms st) = listeners st \<and>
   isPaused (fold run_microtask ms st) = isPaused st \<and>
   eventQueue (fold run_microtask ms st) = eventQueue st \<and>
   mergeFn (fold run_microtask ms st) = mergeFn st \<and>
   delay (fold run_microtask ms st) = delay st \<and>
   handle (fold run_microtask ms st) = handle st \<and>
   kind (fold run_microtask ms st) = kind st \<and>
   globalLeakWarningThreshold (fold run_microtask ms st) = globalLeakWarningThreshold st \<and>
   nextId (fold run_microtask ms st) = nextId st \<and>
   now (fold run_microtask ms st) = now st \<and>
   invoked (fold run_microtask ms st) = invoked st \<and>
   errors (fold run_microtask ms st) = errors st \<and>
   warnings (fold run_microtask ms st) = warnings st \<and>
   hooks (fold run_microtask ms st) = hooks st \<and>
   infos (fold run_microtask ms st) = infos st"
  by (induction ms arbitrary: st) (simp_all add: run_microtask_def)

lemma run_microtasks_frame [simp]:
  "options (run_microtasks st) = options st"
  "leakageMon (run_microtasks st) = leakageMon st"
  "perfMon (run_microtasks st) = perfMon st"
  "disposed (run_microtasks st) = disposed st"
  "deliveryQueue (run_microtasks st) = deliveryQueue st"
  "listeners (run_microtasks st) = listeners st"
  "isPaused (run_microtasks st) = isPaused st"
  "eventQueue (run_microtasks st) = eventQueue st"
  "mergeFn (run_microtasks st) = mergeFn st"
  "delay (run_microtasks st) = delay st"
  "handle (run_microtasks st) = handle st"
  "kind (run_microtasks st) = kind st"
  "globalLeakWarningThreshold (run_microtasks st) = globalLeakWarningThreshold st"
  "nextId (run_microtasks st) = nextId st"
  "now (run_microtasks st) = now st"
  "invoked (run_microtasks st) = invoked st"
  "errors (run_microtasks st) = errors st"
  "warnings (run_microtasks st) = warnings st"
  "hooks (run_microtasks st) = hooks st"
  "infos (run_microtasks st) = infos st"
  by (simp_all add: run_microtasks_def run_microtask_fold_frame)

lemma advance_no_monitor:
  "advance n t st = Some st' \<Longrightarrow> leakageMon st = None \<Longrightarrow>
     leakageMon st' = None \<and> warnings st' = warnings st"
proof (induction n arbitrary: st st')
  case 0 then show ?case by simp
next
  case (Suc n)
  show ?case
  proof (cases "handle st")
    case None
    then show ?thesis using Suc.prems by (auto simp: Let_def)
  next
    case (Some due)
    show ?thesis
    proof (cases "due \<le> t")
      case False
      then show ?thesis using Some Suc.prems by (auto simp: Let_def)
    next
      case True
      let ?s = "(run_microtasks st)\<lparr> now := max (now st) due, handle := None \<rparr>"
      from True Some Suc.prems(1) obtain r where
        r: "exec n Call_resume ?s = Some r" and adv: "advance n t (fst r) = Some st'"
        by (auto simp: Let_def timer_callback_def PauseableEmitter_resume_def split: option.splits)
      have "leakageMon (fst r) = None \<and> warnings (fst r) = warnings ?s"
        using exec_no_monitor[of n Call_resume ?s "fst r" "snd r"] r Suc.prems(2) by simp
      then show ?thesis using Suc.IH[OF adv] by simp
    qed
  qed
qed

lemma run_ops_no_monitor:
  "run_ops n ops st = Some st' \<Longrightarrow> leakageMon st = None \<Longrightarrow>
     leakageMon st' = None \<and> warnings st' = warnings st"
proof (induction ops arbitrary: st)
  case Nil then show ?case by simp
next
  case (Cons x ops)
  show ?case
  proof (cases x)
    case (Do a)
    with Cons.prems(1) obtain r where
      r: "exec n (Call_run [a]) st = Some r" and rest: "run_ops n ops (fst r) = Some st'"
      by (auto split: option.splits)
    have "leakageMon (fst r) = None \<and> warnings (fst r) = warnings st"
      using exec_no_monitor[of n "Call_run [a]" st "fst r" "snd r"] r Cons.prems(2) by simp
    then show ?thesis using Cons.IH[OF rest] by simp
  next
    case Microtasks
    then show ?thesis using Cons.prems Cons.IH[of "run_microtasks st"] by simp
  next
    case (Advance t)
    with Cons.prems(1) obtain s1 where
      s1: "advance n t st = Some s1" and rest: "run_ops n ops s1 = Some st'"
      by (auto split: option.splits)
    from advance_no_monitor[OF s1 Cons.prems(2)] Cons.IH[OF rest] show ?thesis by simp
  next
    case (SetGlobal g)
    then show ?thesis
      using Cons.prems Cons.IH[of "setGlobalLeakWarningThreshold g st"]
      by (simp add: setGlobalLeakWarningThreshold_def)
  qed
qed

lemma subscribe_all_no_monitor:
  "leakageMon st = None \<Longrightarrow>
     leakageMon (fold (\<lambda>x s. subscribe s (fst x) (snd x)) xs st) = None \<and>
     warnings (fold (\<lambda>x s. subscribe s (fst x) (snd x)) xs st) = warnings st"
  by (induction xs arbitrary: st) simp_all

text \<open>
  C10. An emitter constructed while the process-wide threshold is at most 0 has no leak
  monitor, whatever \<open>leakWarningThreshold\<close> its options carry. It then prints no leak
  warning: not for any sequence of subscriptions, and not at the end of any sequence of
  calls, waits and later changes of the process-wide threshold. Constructed while the
  threshold is positive, it has a monitor that carries the option as its own threshold.
\<close>

theorem C10_monitor_only_when_global_positive:
  "(glob \<le> 0 \<longrightarrow>
      leakageMon (Emitter_new glob opts :: 'a Emitter) = None \<and>
      warnings (fold (\<lambda>x s. subscribe s (fst x) (snd x)) xs (Emitter_new glob opts :: 'a Emitter)) = [] \<and>
      (\<forall>n ops st'. run_ops n ops (Emitter_new glob opts :: 'a Emitter) = Some st' \<longrightarrow>
         leakageMon st' = None \<and> warnings st' = [])) \<and>
   (0 < glob \<longrightarrow>
      leakageMon (Emitter_new glob opts :: 'a Emitter) = Some (new_LeakageMonitor (leakWarningThreshold opts)))"
proof -
  have new: "glob \<le> 0 \<Longrightarrow> leakageMon (Emitter_new glob opts :: 'a Emitter) = None"
    by (simp add: Emitter_new_def)
  have w0: "warnings (Emitter_new glob opts :: 'a Emitter) = []"
    by (simp add: Emitter_new_def)
  show ?thesis
    using subscribe_all_no_monitor[OF new, of xs] run_ops_no_monitor[OF _ new] w0
    by (auto simp: Emitter_new_def)
qed

theorem C10_witness:
  "(0::rat) \<le> 0 \<and>
   (\<exists>st'. run_ops 10
       [Do (ASubscribe (\<lambda>p. []) ''a''), SetGlobal 1, Do (ASubscribe (\<lambda>p. []) ''a''),
        Do (ASubscribe (\<lambda>p. [ASubscribe (\<lambda>p. []) ''b'']) ''a''), Do (AFire 0)]
       (Emitter_new 0 opts_threshold_1 :: nat Emitter) = Some st' \<and>
     length (the (listeners st')) = 4 \<and> leakageMon st' = None \<and> warnings st' = [])"
proof -
  let ?ops = "[Do (ASubscribe (\<lambda>p. []) ''a''), SetGlobal 1, Do (ASubscribe (\<lambda>p. []) ''a''),
        Do (ASubscribe (\<lambda>p. [ASubscribe (\<lambda>p. []) ''b'']) ''a''), Do (AFire (0::nat))]"
  let ?s = "Emitter_new 0 opts_threshold_1 :: nat Emitter"
  have "map_option (\<lambda>s. length (the (listeners s))) (run_ops 10 ?ops ?s) = Some 4"
    by code_simp
  then obtain st' where st': "run_ops 10 ?ops ?s = Some st'" "length (the (listeners st')) = 4"
    by auto
  have "leakageMon st' = None \<and> warnings st' = []"
    using C10_monitor_only_when_global_positive[of 0 opts_threshold_1 "[]"] st'(1) by blast
  with st' show ?thesis by blast
qed

subsection \<open>The leak monitor\<close>


lemma top_loop_max_aux:
  "[] \<notin> fst ` set m \<Longrightarrow> k0 \<noteq> [] \<Longrightarrow> top_loop m (Some k0, c0) = (r, c) \<Longrightarrow>
     (\<exists>k. r = Some k \<and> ((k, c) = (k0, c0) \<or> (k, c) \<in> set m)) \<and> c0 \<le> c \<and> (\<forall>x \<in> set m. snd x \<le> c)"
proof (induction m arbitrary: k0 c0)
  case Nil then show ?case by simp
next
  case (Cons x m)
  obtain k1 c1 where x: "x = (k1, c1)" by (cases x)
  show ?case
  proof (cases "c0 < c1")
    case True
    with Cons.prems x have "top_loop m (Some k1, c1) = (r, c)" by simp
    from Cons.IH[OF _ _ this] Cons.prems(1) x True show ?thesis by force
  next
    case False
    with Cons.prems x have "top_loop m (Some k0, c0) = (r, c)" by simp
    from Cons.IH[OF _ Cons.prems(2) this] Cons.prems(1) x False show ?thesis by force
  qed
qed

lemma top_loop_max:
  assumes "m \<noteq> []" "[] \<notin> fst ` set m" "top_loop m (None, 0) = (r, c)"
  shows "(\<exists>k. r = Some k \<and> (k, c) \<in> set m) \<and> (\<forall>x \<in> set m. snd x \<le> c)"
proof -
  from assms(1) obtain k1 c1 m' where m: "m = (k1, c1) # m'" by (cases m) auto
  with assms have t: "top_loop m' (Some k1, c1) = (r, c)" and k1: "k1 \<noteq> []" and m': "[] \<notin> fst ` set m'"
    by auto
  from top_loop_max_aux[OF m' k1 t] m show ?thesis by auto
qed

lemma check_nonpositive:
  "effective_threshold glob mon \<le> 0 \<Longrightarrow> check glob mon s k = (mon, [], False)"
  by (simp add: check_def)

lemma check_below:
  "of_nat k < effective_threshold glob mon \<Longrightarrow> check glob mon s k = (mon, [], False)"
  by (simp add: check_def)

lemma check_countdown:
  assumes "0 < effective_threshold glob mon" "effective_threshold glob mon \<le> of_nat k"
  shows "(warnCountdown mon - 1 \<le> 0 \<longrightarrow>
            length (fst (snd (check glob mon s k))) = 1 \<and>
            warnCountdown (fst (check glob mon s k)) = effective_threshold glob mon * (1 / 2)) \<and>
         (0 < warnCountdown mon - 1 \<longrightarrow>
            fst (snd (check glob mon s k)) = [] \<and>
            warnCountdown (fst (check glob mon s k)) = warnCountdown mon - 1)"
  using assms by (auto simp: check_def Let_def split: prod.splits)

lemma subscribe_nonpositive:
  assumes "leakageMon st = Some mon" "effective_threshold (globalLeakWarningThreshold st) mon \<le> 0"
  shows "warnings (subscribe st cb site) = warnings st"
  using assms by (simp add: subscribe_def Let_def call_hook_def check_nonpositive split: prod.splits)

lemma map_set_keys: "fst ` set (map_set m k v) = insert k (fst ` set m)"
proof (induction m)
  case Nil
  show ?case by simp
next
  case (Cons x m)
  obtain k' v' where x: "x = (k', v')" by (cases x)
  show ?case
  proof (cases "k' = k")
    case True
    then show ?thesis using x by simp
  next
    case False
    then show ?thesis using x Cons.IH by (simp add: insert_commute)
  qed
qed

lemma subscribe_listeners:
  "listeners (subscribe st cb site) =
     Some ((case listeners st of None \<Rightarrow> [] | Some ls \<Rightarrow> ls) @
           [\<lparr> lid = nextId st, callback = cb, stack = map_option (\<lambda>_. site) (leakageMon st) \<rparr>])"
  by (simp add: subscribe_def call_hook_def Let_def split: option.splits prod.splits)

lemma subscribe_monitor:
  "leakageMon (subscribe st cb site) =
     map_option (\<lambda>m. fst (check (globalLeakWarningThreshold st) m site
        (length (case listeners st of None \<Rightarrow> [] | Some ls \<Rightarrow> ls) + 1))) (leakageMon st)"
  by (simp add: subscribe_def call_hook_def Let_def split: option.splits prod.splits)

lemma subscribe_warnings:
  "warnings (subscribe st cb site) =
     warnings st @ (case leakageMon st of None \<Rightarrow> []
        | Some m \<Rightarrow> fst (snd (check (globalLeakWarningThreshold st) m site
            (length (case listeners st of None \<Rightarrow> [] | Some ls \<Rightarrow> ls) + 1))))"
  by (simp add: subscribe_def call_hook_def Let_def split: option.splits prod.splits)

lemma check_names_most_frequent:
  assumes th: "0 < effective_threshold glob mon" "effective_threshold glob mon \<le> of_nat k"
    and cd: "warnCountdown mon - 1 \<le> 0"
    and keys: "[] \<notin> fst ` set (case stacks mon of None \<Rightarrow> [] | Some m \<Rightarrow> m)" "s \<noteq> []"
  shows "\<exists>w m1. fst (snd (check glob mon s k)) = [w] \<and> stacks (fst (check glob mon s k)) = Some m1 \<and>
           w_listenerCount w = k \<and>
           (\<exists>site. w_topStack w = Some site \<and> (site, w_topCount w) \<in> set m1) \<and>
           (\<forall>x \<in> set m1. snd x \<le> w_topCount w)"
proof -
  define m where "m = (case stacks mon of None \<Rightarrow> [] | Some m \<Rightarrow> m)"
  define m1 where "m1 = map_set m s (get_or_0 m s + 1)"
  obtain r c where rc: "top_loop m1 (None, 0) = (r, c)" by (cases "top_loop m1 (None, 0)")
  have ne: "m1 \<noteq> []" using map_set_keys[of m s "get_or_0 m s + 1"] by (auto simp: m1_def)
  have k1: "[] \<notin> fst ` set m1" using keys by (simp add: m1_def m_def map_set_keys)
  have chk: "check glob mon s k =
      (mon\<lparr> stacks := Some m1, warnCountdown := effective_threshold glob mon * (1 / 2) \<rparr>,
       [\<lparr> w_listenerCount = k, w_topCount = c, w_topStack = r \<rparr>], True)"
    using th cd rc by (simp add: check_def Let_def m1_def m_def)
  from top_loop_max[OF ne k1 rc] chk show ?thesis by simp
qed

lemma three_subscriptions:
  assumes g: "0 < glob" and eff: "(case leakWarningThreshold opts of Some c \<Rightarrow> c | None \<Rightarrow> glob) = 2"
    and s2: "s2 \<noteq> []"
  shows "warnings (subscribe (Emitter_new glob opts :: 'a Emitter) cb1 s1) = [] \<and>
         warnings (subscribe (subscribe (Emitter_new glob opts :: 'a Emitter) cb1 s1) cb2 s2)
           = [\<lparr> w_listenerCount = 2, w_topCount = 1, w_topStack = Some s2 \<rparr>] \<and>
         warnings (subscribe (subscribe (subscribe (Emitter_new glob opts :: 'a Emitter) cb1 s1) cb2 s2) cb3 s3)
           = [\<lparr> w_listenerCount = 2, w_topCount = 1, w_topStack = Some s2 \<rparr>,
              \<lparr> w_listenerCount = 3, w_topCount = (if s3 = s2 then 2 else 1), w_topStack = Some s2 \<rparr>]"
proof -
  define e0 :: "'a Emitter" where "e0 = Emitter_new glob opts"
  define e1 where "e1 = subscribe e0 cb1 s1"
  define e2 where "e2 = subscribe e1 cb2 s2"
  define e3 where "e3 = subscribe e2 cb3 s3"
  have eff': "effective_threshold glob (new_LeakageMonitor (leakWarningThreshold opts)) = 2"
    using eff by (simp add: effective_threshold_def new_LeakageMonitor_def)
  have l0: "leakageMon e0 = Some (new_LeakageMonitor (leakWarningThreshold opts))"
       "listeners e0 = None" "warnings e0 = []" "globalLeakWarningThreshold e0 = glob"
    using g by (simp_all add: e0_def Emitter_new_def)
  have c1: "check glob (new_LeakageMonitor (leakWarningThreshold opts)) s1 (Suc 0)
             = (new_LeakageMonitor (leakWarningThreshold opts), [], False)"
    using eff' by (simp add: check_def)
  have l1: "leakageMon e1 = Some (new_LeakageMonitor (leakWarningThreshold opts))"
       "\<exists>l. listeners e1 = Some [l]" "warnings e1 = []" "globalLeakWarningThreshold e1 = glob"
    using l0 c1 by (simp_all add: e1_def subscribe_listeners subscribe_monitor subscribe_warnings)
  let ?m2 = "(new_LeakageMonitor (leakWarningThreshold opts))\<lparr> stacks := Some [(s2, 1)], warnCountdown := 1 \<rparr>"
  have c2: "check glob (new_LeakageMonitor (leakWarningThreshold opts)) s2 (Suc (Suc 0))
             = (?m2, [\<lparr> w_listenerCount = Suc (Suc 0), w_topCount = 1, w_topStack = Some s2 \<rparr>], True)"
    using eff' by (simp add: check_def Let_def get_or_0_def new_LeakageMonitor_def)
  from l1(2) obtain l where l: "listeners e1 = Some [l]" by blast
  have l2: "leakageMon e2 = Some ?m2"
       "\<exists>l l'. listeners e2 = Some [l, l']"
       "warnings e2 = [\<lparr> w_listenerCount = 2, w_topCount = 1, w_topStack = Some s2 \<rparr>]"
       "globalLeakWarningThreshold e2 = glob"
    using l1(1,3,4) l c2 by (simp_all add: e2_def subscribe_listeners subscribe_monitor subscribe_warnings numeral_2_eq_2)
  from l2(2) obtain la lb where la: "listeners e2 = Some [la, lb]" by blast
  have eff2: "effective_threshold glob ?m2 = 2"
    using eff' by (simp add: effective_threshold_def new_LeakageMonitor_def)
  have c3: "fst (snd (check glob ?m2 s3 (Suc (Suc (Suc 0)))))
             = [\<lparr> w_listenerCount = Suc (Suc (Suc 0)), w_topCount = (if s3 = s2 then 2 else 1), w_topStack = Some s2 \<rparr>]"
    using eff2 s2 by (simp add: check_def Let_def get_or_0_def)
  have l3: "warnings e3 = [\<lparr> w_listenerCount = 2, w_topCount = 1, w_topStack = Some s2 \<rparr>,
                        \<lparr> w_listenerCount = 3, w_topCount = (if s3 = s2 then 2 else 1), w_topStack = Some s2 \<rparr>]"
    using l2(1,3,4) la c3 by (simp add: e3_def subscribe_warnings numeral_3_eq_3)
  show ?thesis using l1(3) l2(3) l3 unfolding e3_def e2_def e1_def e0_def by blast
qed


text \<open>
  C2, as the code has it. With an effective threshold of 2 (the emitter constructed
  under a positive global threshold) the first subscription prints no warning; the
  second, which brings the listener count to the threshold, prints exactly one, naming
  the most frequent capture site; the countdown is then \<open>2 * 0.5 = 1\<close>, so the third
  subscription prints exactly one more. In general, a check that passes the threshold
  warns exactly when the countdown, decreased by one, is at most 0, and then sets the
  countdown to \<open>threshold * 0.5\<close>; the warning names a site whose tally is the largest.
  With an effective threshold of at most 0 nothing is tallied and nothing is printed.
\<close>

theorem C2_leak_warning_schedule:
  "(0 < glob \<and> (case leakWarningThreshold opts of Some c \<Rightarrow> c | None \<Rightarrow> glob) = 2 \<and> s2 \<noteq> [] \<longrightarrow>
      warnings (subscribe (Emitter_new glob opts :: 'a Emitter) cb1 s1) = [] \<and>
      warnings (subscribe (subscribe (Emitter_new glob opts :: 'a Emitter) cb1 s1) cb2 s2)
        = [\<lparr> w_listenerCount = 2, w_topCount = 1, w_topStack = Some s2 \<rparr>] \<and>
      warnings (subscribe (subscribe (subscribe (Emitter_new glob opts :: 'a Emitter) cb1 s1) cb2 s2) cb3 s3)
        = [\<lparr> w_listenerCount = 2, w_topCount = 1, w_topStack = Some s2 \<rparr>,
           \<lparr> w_listenerCount = 3, w_topCount = (if s3 = s2 then 2 else 1), w_topStack = Some s2 \<rparr>]) \<and>
   (0 < effective_threshold g mon \<and> effective_threshold g mon \<le> of_nat k \<and>
    warnCountdown mon - 1 \<le> 0 \<longrightarrow>
      length (fst (snd (check g mon s k))) = 1 \<and>
      warnCountdown (fst (check g mon s k)) = effective_threshold g mon * (1 / 2)) \<and>
   (0 < effective_threshold g mon \<and> effective_threshold g mon \<le> of_nat k \<and>
    warnCountdown mon - 1 \<le> 0 \<and>
    [] \<notin> fst ` set (case stacks mon of None \<Rightarrow> [] | Some m \<Rightarrow> m) \<and> s \<noteq> [] \<longrightarrow>
      (\<exists>w m1. fst (snd (check g mon s k)) = [w] \<and> stacks (fst (check g mon s k)) = Some m1 \<and>
         w_listenerCount w = k \<and>
         (\<exists>site. w_topStack w = Some site \<and> (site, w_topCount w) \<in> set m1) \<and>
         (\<forall>x \<in> set m1. snd x \<le> w_topCount w))) \<and>
   (0 < effective_threshold g' mon' \<and> effective_threshold g' mon' \<le> of_nat k' \<and>
    0 < warnCountdown mon' - 1 \<longrightarrow>
      fst (snd (check g' mon' s' k')) = [] \<and>
      warnCountdown (fst (check g' mon' s' k')) = warnCountdown mon' - 1) \<and>
   (effective_threshold g0 mon0 \<le> 0 \<longrightarrow> check g0 mon0 s0 k0 = (mon0, [], False)) \<and>
   (leakageMon (st :: 'a Emitter) = Some mon1 \<and>
    effective_threshold (globalLeakWarningThreshold st) mon1 \<le> 0 \<longrightarrow>
      warnings (subscribe st cb site) = warnings st)"
  using three_subscriptions[of glob opts s2 cb1 s1 cb2 cb3 s3]
    check_countdown[of g mon k s] check_countdown[of g' mon' k' s']
    check_names_most_frequent[of g mon k s]
    check_nonpositive[of g0 mon0 s0 k0] subscribe_nonpositive[of st mon1 cb site]
  by blast

theorem C2_witness:
  "(0::rat) < 2 \<and>
   warnings (subscribe (Emitter_new 2 plain_options :: nat Emitter) (\<lambda>p. []) ''a'') = [] \<and>
   warnings (subscribe (subscribe (Emitter_new 2 plain_options :: nat Emitter) (\<lambda>p. []) ''a'') (\<lambda>p. []) ''b'')
     = [\<lparr> w_listenerCount = 2, w_topCount = 1, w_topStack = Some ''b'' \<rparr>] \<and>
   warnings (subscribe (subscribe (subscribe (Emitter_new 2 plain_options :: nat Emitter)
       (\<lambda>p. []) ''a'') (\<lambda>p. []) ''b'') (\<lambda>p. []) ''b'')
     = [\<lparr> w_listenerCount = 2, w_topCount = 1, w_topStack = Some ''b'' \<rparr>,
        \<lparr> w_listenerCount = 3, w_topCount = 2, w_topStack = Some ''b'' \<rparr>] \<and>
   length (fst (snd (check 4 \<lparr> customThreshold = None, stacks = Some [(''x'', 1)], warnCountdown = 1 / 2 \<rparr> ''y'' 5))) = 1 \<and>
   warnCountdown (fst (check 4 \<lparr> customThreshold = None, stacks = Some [(''x'', 1)], warnCountdown = 1 / 2 \<rparr> ''y'' 5)) = 2 \<and>
   fst (snd (check 1 \<lparr> customThreshold = Some 4, stacks = Some [(''x'', 1)], warnCountdown = 2 \<rparr> ''y'' 5)) = [] \<and>
   warnCountdown (fst (check 1 \<lparr> customThreshold = Some 4, stacks = Some [(''x'', 1)], warnCountdown = 2 \<rparr> ''y'' 5)) = 1 \<and>
   check 0 \<lparr> customThreshold = None, stacks = None, warnCountdown = 0 \<rparr> ''y'' 5
     = (\<lparr> customThreshold = None, stacks = None, warnCountdown = 0 \<rparr>, [], False) \<and>
   warnings (subscribe (Emitter_new 1 opts_threshold_0 :: nat Emitter) (\<lambda>p. []) ''a'') = []"
proof -
  let ?A = "\<lparr> customThreshold = None, stacks = Some [(''x'', 1)], warnCountdown = 1 / 2 \<rparr>"
  let ?B = "\<lparr> customThreshold = Some 4, stacks = Some [(''x'', 1)], warnCountdown = 2 \<rparr>"
  let ?Z = "\<lparr> customThreshold = None, stacks = None, warnCountdown = 0 \<rparr>"
  let ?e = "Emitter_new 1 opts_threshold_0 :: nat Emitter"
  have h1: "(0::rat) < 2 \<and> (case leakWarningThreshold plain_options of Some c \<Rightarrow> c | None \<Rightarrow> 2) = (2::rat) \<and> ''b'' \<noteq> []"
    by (simp add: plain_options_def)
  have h2: "0 < effective_threshold 4 ?A \<and> effective_threshold 4 ?A \<le> of_nat 5 \<and> warnCountdown ?A - 1 \<le> 0"
    by (simp add: effective_threshold_def)
  have h3: "0 < effective_threshold 1 ?B \<and> effective_threshold 1 ?B \<le> of_nat 5 \<and> 0 < warnCountdown ?B - 1"
    by (simp add: effective_threshold_def)
  have h4: "effective_threshold 0 ?Z \<le> 0"
    by (simp add: effective_threshold_def)
  have h5: "leakageMon ?e = Some (new_LeakageMonitor (Some 0)) \<and>
            effective_threshold (globalLeakWarningThreshold ?e) (new_LeakageMonitor (Some 0)) \<le> 0"
    by (simp add: Emitter_new_def opts_threshold_0_def effective_threshold_def new_LeakageMonitor_def)
  have e0: "warnings ?e = []" by (simp add: Emitter_new_def)
  have eff: "effective_threshold 4 ?A * (1 / 2) = 2" "warnCountdown ?B - 1 = 1"
    by (simp_all add: effective_threshold_def)
  show ?thesis
    using C2_leak_warning_schedule[of 2 plain_options "''b''" "\<lambda>p. []" "''a''" "\<lambda>p. []" "\<lambda>p. []" "''b''"
        4 ?A 5 "''y''" 1 ?B 5 "''y''" 0 ?Z "''y''" 5 ?e "new_LeakageMonitor (Some 0)" "\<lambda>p. []" "''a''"]
      h1 h2 h3 h4 h5 e0 eff
    by simp
qed

text \<open>C2 as stated fails: with threshold 2 the second subscription already warns.\<close>

theorem C2_counterexample:
  "effective_threshold 2 (the (leakageMon (Emitter_new 2 plain_options :: nat Emitter))) = 2 \<and>
   warnings (subscribe (subscribe (Emitter_new 2 plain_options :: nat Emitter) (\<lambda>p. []) ''a'') (\<lambda>p. []) ''b'')
     = [\<lparr> w_listenerCount = 2, w_topCount = 1, w_topStack = Some ''b'' \<rparr>]"
  by code_simp

subsection \<open>Disposal and the emitter at rest\<close>


lemma disposed_dispose [simp]: "disposed (Emitter_dispose st)"
  by (simp add: Emitter_dispose_def call_hook_def Let_def split: option.splits)

lemma dispose_idem: "Emitter_dispose (Emitter_dispose st) = Emitter_dispose st"
proof -
  have "disposed s \<Longrightarrow> Emitter_dispose s = s" for s :: "'a Emitter"
    by (simp add: Emitter_dispose_def)
  then show ?thesis by simp
qed

lemma dispose_drained: "\<not> disposed st \<Longrightarrow> drained (Emitter_dispose st)"
  by (auto simp: drained_def Emitter_dispose_def call_hook_def Let_def split: option.splits)

lemma drained_steps [simp]:
  "drained st \<Longrightarrow> drained (release st i)"
  "drained st \<Longrightarrow> drained (Emitter_dispose st)"
  "drained st \<Longrightarrow> drained (pause st)"
  "drained st \<Longrightarrow> drained (perf_start st)"
  "drained st \<Longrightarrow> drained (perf_stop st)"
  "drained st \<Longrightarrow> drained (run_microtasks st)"
  by (auto simp: drained_def release_def Emitter_dispose_def call_hook_def pause_def Let_def
      split: option.splits)

lemma pause_frame [simp]:
  "invoked (pause st) = invoked st" "kind (pause st) = kind st"
  "deliveryQueue (pause st) = deliveryQueue st" "listeners (pause st) = listeners st"
  "errors (pause st) = errors st" "now (pause st) = now st" "nextId (pause st) = nextId st"
  "eventQueue (pause st) = eventQueue st" "mergeFn (pause st) = mergeFn st"
  "handle (pause st) = handle st" "delay (pause st) = delay st"
  "isPaused (pause st) = isPaused st + 1" "disposed (pause st) = disposed st"
  "subs (pause st) = subs st" "perfMon (pause st) = perfMon st" "infos (pause st) = infos st"
  "leakageMon (pause st) = leakageMon st" "warnings (pause st) = warnings st"
  "options (pause st) = options st" "hooks (pause st) = hooks st"
  "microtasks (pause st) = microtasks st"
  "globalLeakWarningThreshold (pause st) = globalLeakWarningThreshold st"
  by (simp_all add: pause_def)

lemma exec_drained:
  "exec n c st = Some (st', x) \<Longrightarrow> drained st \<Longrightarrow> no_subscribe_call c \<Longrightarrow>
     drained st' \<and> invoked st' = invoked st"
proof (induction n arbitrary: c st st' x)
  case 0 then show ?case by simp
next
  case (Suc n)
  note IH = Suc.IH
  show ?case
  proof (cases c)
    case (Call_Emitter_fire e)
    have d: "drained (perf_start (st\<lparr>deliveryQueue := Some []\<rparr>))"
      using Suc.prems(2) by (auto simp: drained_def)
    show ?thesis using Suc.prems Call_Emitter_fire IH[of Call_drain "perf_start (st\<lparr>deliveryQueue := Some []\<rparr>)"] d
      by (auto simp: Let_def drained_def split: option.splits prod.splits)
  next
    case Call_drain
    then show ?thesis using Suc.prems
      by (auto simp: Let_def drained_def split: option.splits prod.splits list.splits)
  next
    case (Call_invoke l e)
    then show ?thesis using Suc.prems by simp
  next
    case (Call_run acts)
    show ?thesis
    proof (cases acts)
      case Nil
      then show ?thesis using Suc.prems Call_run by simp
    next
      case (Cons a rest)
      have r: "no_subscribe_call (Call_run rest)" using Suc.prems(3) Call_run Cons by simp
      show ?thesis
      proof (cases a)
        case (AFire p)
        with Suc.prems Call_run Cons obtain s1 y where
          1: "exec n (Call_fire p) st = Some (s1, y)" and 2: "exec n (Call_run rest) s1 = Some (st', x)"
          by (auto split: option.splits)
        from IH[OF 1 Suc.prems(2)] IH[OF 2 _ r] show ?thesis by simp
      next
        case (ARelease i)
        with Suc.prems Call_run Cons have 2: "exec n (Call_run rest) (release st i) = Some (st', x)" by simp
        from IH[OF 2 _ r] Suc.prems(2) show ?thesis by simp
      next
        case (ASubscribe cb site)
        then show ?thesis using Suc.prems(3) Call_run Cons by simp
      next
        case ADispose
        with Suc.prems Call_run Cons have 2: "exec n (Call_run rest) (Emitter_dispose st) = Some (st', x)" by simp
        from IH[OF 2 _ r] Suc.prems(2) show ?thesis by simp
      next
        case APause
        show ?thesis
        proof (cases "kind st = KEmitter")
          case True
          then show ?thesis using Suc.prems Call_run Cons APause by auto
        next
          case False
          with Suc.prems Call_run Cons APause have 2: "exec n (Call_run rest) (pause st) = Some (st', x)" by simp
          from IH[OF 2 _ r] Suc.prems(2) show ?thesis by simp
        qed
      next
        case AResume
        show ?thesis
        proof (cases "kind st = KEmitter")
          case True
          then show ?thesis using Suc.prems Call_run Cons AResume by auto
        next
          case False
          with Suc.prems Call_run Cons AResume obtain s1 y where
            1: "exec n Call_resume st = Some (s1, y)" and 2: "exec n (Call_run rest) s1 = Some (st', x)"
            by (auto split: option.splits)
          from IH[OF 1 Suc.prems(2)] IH[OF 2 _ r] show ?thesis by simp
        qed
      next
        case (AThrow e)
        then show ?thesis using Suc.prems Call_run Cons by auto
      qed
    qed
  next
    case Call_resume
    have d1: "drained (st\<lparr>isPaused := isPaused st - 1\<rparr>)"
         "drained (st\<lparr>isPaused := isPaused st - 1, eventQueue := []\<rparr>)"
      using Suc.prems(2) by (auto simp: drained_def)
    show ?thesis using Suc.prems Call_resume d1
        IH[of Call_flush "st\<lparr>isPaused := isPaused st - 1\<rparr>"]
        IH[of "Call_Emitter_fire e" "st\<lparr>isPaused := isPaused st - 1, eventQueue := []\<rparr>" for e]
      by (auto simp: Let_def split: option.splits if_splits)
  next
    case Call_flush
    show ?thesis
    proof (cases "isPaused st = 0 \<and> eventQueue st \<noteq> []")
      case False
      then show ?thesis using Suc.prems Call_flush by (auto split: list.splits if_splits)
    next
      case True
      then obtain e rest where q: "eventQueue st = e # rest" by (cases "eventQueue st") auto
      with True Suc.prems Call_flush obtain s1 y where
        1: "exec n (Call_Emitter_fire e) (st\<lparr>eventQueue := rest\<rparr>) = Some (s1, y)"
        and 2: "exec n Call_flush s1 = Some (st', x)"
        by (auto split: option.splits)
      have d: "drained (st\<lparr>eventQueue := rest\<rparr>)" using Suc.prems(2) by (auto simp: drained_def)
      from IH[OF 1 d] IH[OF 2] show ?thesis by simp
    qed
  next
    case (Call_Pauseable_fire e)
    have d: "drained (st\<lparr>eventQueue := eventQueue st @ [e]\<rparr>)"
      using Suc.prems(2) by (auto simp: drained_def)
    show ?thesis using Suc.prems Call_Pauseable_fire d IH[of "Call_Emitter_fire e" st]
      by (auto simp: Let_def split: option.splits if_splits)
  next
    case (Call_Debounce_fire e)
    have d: "drained ((pause st)\<lparr>handle := Some (now st + timeout_after (delay st))\<rparr>)"
      using Suc.prems(2) by (auto simp: drained_def pause_def)
    show ?thesis using Suc.prems Call_Debounce_fire d
        IH[of "Call_Pauseable_fire e" st] IH[of "Call_Pauseable_fire e" "(pause st)\<lparr>handle := Some (now st + timeout_after (delay st))\<rparr>"]
      by (auto simp: Let_def split: option.splits if_splits)
  next
    case (Call_fire e)
    then show ?thesis using Suc.prems
        IH[of "Call_Emitter_fire e" st] IH[of "Call_Pauseable_fire e" st] IH[of "Call_Debounce_fire e" st]
      by (auto split: kind.splits)
  qed
qed



lemma advance_drained:
  "advance n t st = Some st' \<Longrightarrow> drained st \<Longrightarrow> drained st' \<and> invoked st' = invoked st"
proof (induction n arbitrary: st st')
  case 0 then show ?case by simp
next
  case (Suc n)
  have d0: "drained (run_microtasks st)" using Suc.prems(2) by simp
  show ?case
  proof (cases "handle st")
    case None
    then show ?thesis using Suc.prems d0 by (auto simp: Let_def drained_def)
  next
    case (Some due)
    show ?thesis
    proof (cases "due \<le> t")
      case False
      then show ?thesis using Some Suc.prems d0 by (auto simp: Let_def drained_def)
    next
      case True
      let ?s = "(run_microtasks st)\<lparr> now := max (now st) due, handle := None \<rparr>"
      from True Some Suc.prems(1) obtain r where
        r: "exec n Call_resume ?s = Some r" and adv: "advance n t (fst r) = Some st'"
        by (auto simp: Let_def timer_callback_def PauseableEmitter_resume_def split: option.splits)
      have d: "drained ?s" using d0 by (auto simp: drained_def)
      have "drained (fst r) \<and> invoked (fst r) = invoked ?s"
        using exec_drained[of n Call_resume ?s "fst r" "snd r"] r d by simp
      then show ?thesis using Suc.IH[OF adv] by simp
    qed
  qed
qed

lemma run_ops_drained:
  "run_ops n ops st = Some st' \<Longrightarrow> drained st \<Longrightarrow> list_all no_subscribe ops \<Longrightarrow>
     drained st' \<and> invoked st' = invoked st"
proof (induction ops arbitrary: st)
  case Nil then show ?case by simp
next
  case (Cons x ops)
  have rest_ok: "list_all no_subscribe ops" using Cons.prems(3) by simp
  show ?case
  proof (cases x)
    case (Do a)
    with Cons.prems(1) obtain r where
      r: "exec n (Call_run [a]) st = Some r" and rest: "run_ops n ops (fst r) = Some st'"
      by (auto split: option.splits)
    have "no_subscribe_call (Call_run [a])" using Cons.prems(3) Do by simp
    then have "drained (fst r) \<and> invoked (fst r) = invoked st"
      using exec_drained[of n "Call_run [a]" st "fst r" "snd r"] r Cons.prems(2) by simp
    then show ?thesis using Cons.IH[OF rest _ rest_ok] by simp
  next
    case Microtasks
    then show ?thesis using Cons.prems Cons.IH[of "run_microtasks st"] by simp
  next
    case (Advance t)
    with Cons.prems(1) obtain s1 where
      s1: "advance n t st = Some s1" and rest: "run_ops n ops s1 = Some st'"
      by (auto split: option.splits)
    from advance_drained[OF s1 Cons.prems(2)] Cons.IH[OF rest _ rest_ok] show ?thesis by simp
  next
    case (SetGlobal g)
    have "drained (setGlobalLeakWarningThreshold g st)"
      using Cons.prems(2) by (simp add: drained_def setGlobalLeakWarningThreshold_def)
    then show ?thesis using SetGlobal Cons.prems Cons.IH[of "setGlobalLeakWarningThreshold g st"]
      by (simp add: setGlobalLeakWarningThreshold_def)
  qed
qed



lemma exec_Emitter_fire:
  "exec (Suc n) (Call_Emitter_fire event) st =
    (case listeners st of
       None \<Rightarrow> Some (st, None)
     | Some ls \<Rightarrow>
         (case exec n Call_drain
                 (perf_start (st\<lparr> deliveryQueue :=
                    Some ((case deliveryQueue st of None \<Rightarrow> [] | Some q \<Rightarrow> q) @ map (\<lambda>l. (l, event)) ls) \<rparr>)) of
            None \<Rightarrow> None
          | Some (st2, _) \<Rightarrow> Some (perf_stop st2, None)))"
  by (simp add: Let_def split: option.splits)

lemma exec_Pauseable_fire:
  "exec (Suc n) (Call_Pauseable_fire event) st =
    (case listeners st of
       None \<Rightarrow> Some (st, None)
     | Some _ \<Rightarrow>
         if isPaused st \<noteq> 0 then Some (st\<lparr> eventQueue := eventQueue st @ [event] \<rparr>, None)
         else exec n (Call_Emitter_fire event) st)"
  by simp

lemma exec_Debounce_fire:
  "exec (Suc n) (Call_Debounce_fire event) st =
     exec n (Call_Pauseable_fire event)
       (if handle st = None then (pause st)\<lparr> handle := Some (now st + timeout_after (delay st)) \<rparr> else st)"
  by (simp add: Let_def)

lemma exec_fire:
  "exec (Suc n) (Call_fire event) st =
    (case kind st of
       KEmitter \<Rightarrow> exec n (Call_Emitter_fire event) st
     | KPauseable \<Rightarrow> exec n (Call_Pauseable_fire event) st
     | KDebounce \<Rightarrow> exec n (Call_Debounce_fire event) st)"
  by simp

lemma Emitter_fire_drained:
  assumes "drained st"
  shows "exec (Suc (Suc n)) (Call_Emitter_fire p) st =
           Some (case listeners st of None \<Rightarrow> st
                 | Some ls \<Rightarrow> perf_stop (perf_start (st\<lparr> deliveryQueue := Some [] \<rparr>)), None)"
  using assms by (auto simp: drained_def Let_def)

lemma Pauseable_fire_drained:
  assumes "drained st"
  shows "\<exists>st'. exec (Suc (Suc (Suc n))) (Call_Pauseable_fire p) st = Some (st', None)"
  unfolding exec_Pauseable_fire[of "Suc (Suc n)"] Emitter_fire_drained[OF assms]
  by (simp split: option.splits)

lemma Debounce_fire_drained:
  assumes "drained st"
  shows "\<exists>st'. exec (Suc (Suc (Suc (Suc n)))) (Call_Debounce_fire p) st = Some (st', None)"
proof -
  have "drained (if handle st = None then (pause st)\<lparr> handle := Some (now st + timeout_after (delay st)) \<rparr> else st)"
    using assms by (auto simp: drained_def pause_def)
  from Pauseable_fire_drained[OF this] show ?thesis
    unfolding exec_Debounce_fire[of "Suc (Suc (Suc n))"] .
qed

lemma fire_drained_5:
  assumes "drained st"
  shows "\<exists>st'. exec (Suc (Suc (Suc (Suc (Suc n))))) (Call_fire p) st = Some (st', None)"
proof (cases "kind st")
  case KEmitter
  have "\<exists>st'. exec (Suc (Suc (Suc (Suc n)))) (Call_Emitter_fire p) st = Some (st', None)"
    using Emitter_fire_drained[OF assms, of "Suc (Suc n)" p] by blast
  then show ?thesis unfolding exec_fire[of "Suc (Suc (Suc (Suc n)))"] KEmitter by (simp only: kind.case)
next
  case KPauseable
  from Pauseable_fire_drained[OF assms, of "Suc n" p]
  show ?thesis unfolding exec_fire[of "Suc (Suc (Suc (Suc n)))"] KPauseable by (simp only: kind.case)
next
  case KDebounce
  from Debounce_fire_drained[OF assms, of n p]
  show ?thesis unfolding exec_fire[of "Suc (Suc (Suc (Suc n)))"] KDebounce by (simp only: kind.case)
qed

lemma fire_drained_returns:
  assumes "drained st" "5 \<le> n"
  shows "\<exists>st'. exec n (Call_fire p) st = Some (st', None)"
proof -
  from fire_drained_5[OF assms(1), of 0 p] obtain st' where
    "exec (Suc (Suc (Suc (Suc (Suc 0))))) (Call_fire p) st = Some (st', None)" by blast
  from exec_mono[OF this, of n] assms(2) show ?thesis by (auto simp: eval_nat_numeral)
qed

text \<open>
  C5, as the code has it. \<open>dispose\<close> twice is \<open>dispose\<close> once. After the first \<open>dispose\<close>
  of an emitter, and as long as no listener is subscribed afterwards, the emitter has no
  listener and an empty delivery queue whatever else is called on it, every \<open>fire\<close>
  returns, and no listener is invoked.
\<close>

theorem C5_dispose_idempotent_and_fire_silent:
  "Emitter_dispose (Emitter_dispose st) = Emitter_dispose st \<and>
   (\<not> disposed st \<and> list_all no_subscribe ops \<and> run_ops n ops (Emitter_dispose st) = Some st1 \<longrightarrow>
      invoked st1 = invoked st \<and>
      (\<forall>m p. 5 \<le> m \<longrightarrow> (\<exists>st2. exec m (Call_fire p) st1 = Some (st2, None) \<and> invoked st2 = invoked st)))"
proof -
  have "invoked st1 = invoked st \<and>
      (\<forall>m p. 5 \<le> m \<longrightarrow> (\<exists>st2. exec m (Call_fire p) st1 = Some (st2, None) \<and> invoked st2 = invoked st))"
    if nd: "\<not> disposed st" and ok: "list_all no_subscribe ops"
      and run: "run_ops n ops (Emitter_dispose st) = Some st1"
  proof -
    from run_ops_drained[OF run dispose_drained[OF nd] ok]
    have d1: "drained st1" and i1: "invoked st1 = invoked st" by simp_all
    have "\<exists>st2. exec m (Call_fire p) st1 = Some (st2, None) \<and> invoked st2 = invoked st"
      if "5 \<le> m" for m p
    proof -
      from fire_drained_returns[OF d1 that, of p] obtain st2 where
        f: "exec m (Call_fire p) st1 = Some (st2, None)" by blast
      from exec_drained[OF f d1] i1 f show ?thesis by simp
    qed
    with i1 show ?thesis by blast
  qed
  with dispose_idem[of st] show ?thesis by blast
qed


theorem C5_witness:
  "\<not> disposed (subscribe (Emitter_new (-1) plain_options :: nat Emitter) (\<lambda>p. []) ''a'') \<and>
   (\<exists>st1. run_ops 10 [Do (AFire 1), Do (ARelease 0), Microtasks, Do ADispose, Do (AFire 2)]
             (Emitter_dispose (subscribe (Emitter_new (-1) plain_options :: nat Emitter) (\<lambda>p. []) ''a''))
           = Some st1 \<and>
      invoked st1 = [] \<and>
      (\<exists>st2. exec 5 (Call_fire 3) st1 = Some (st2, None) \<and> invoked st2 = []))"
proof -
  let ?st = "subscribe (Emitter_new (-1) plain_options :: nat Emitter) (\<lambda>p. []) ''a''"
  let ?ops = "[Do (AFire 1), Do (ARelease 0), Microtasks, Do ADispose, Do (AFire (2::nat))]"
  have nd: "\<not> disposed ?st" and i0: "invoked ?st = []"
    by (simp_all add: Emitter_new_def)
  have ok: "list_all no_subscribe ?ops" by simp
  have "map_option (\<lambda>s. ()) (run_ops 10 ?ops (Emitter_dispose ?st)) = Some ()"
    by code_simp
  then obtain st1 where run: "run_ops 10 ?ops (Emitter_dispose ?st) = Some st1" by auto
  have "invoked st1 = invoked ?st \<and>
      (\<forall>m p. 5 \<le> m \<longrightarrow> (\<exists>st2. exec m (Call_fire p) st1 = Some (st2, None) \<and> invoked st2 = invoked ?st))"
    using C5_dispose_idempotent_and_fire_silent[of ?st ?ops 10 st1] nd ok run by blast
  then have "invoked st1 = [] \<and> (\<exists>st2. exec 5 (Call_fire 3) st1 = Some (st2, None) \<and> invoked st2 = [])"
    unfolding i0 by (metis order_refl)
  with nd run show ?thesis by blast
qed

text \<open>C5 as stated fails: a listener subscribed after \<open>dispose\<close> is invoked by the
  next \<open>fire\<close>.\<close>

theorem C5_counterexample:
  "map_option invoked
     (run_ops 10 [Do ADispose, Do (ASubscribe (\<lambda>p. []) ''a''), Do (AFire 7)]
        (Emitter_new (-1) plain_options :: nat Emitter))
   = Some [(0, 7, 0)]"
  by code_simp

text \<open>
  C3, as the code has it. On an emitter whose listener list was never created, \<open>fire\<close>
  changes nothing. On an emitter whose listener list is empty and whose delivery queue
  is absent or empty, \<open>fire\<close> invokes no listener and leaves the listeners and their
  subscriptions alone, but it leaves a delivery queue behind (and starts and stops the
  profiler, when there is one).
\<close>

theorem C3_fire_without_listeners:
  "(listeners st = None \<longrightarrow> (\<forall>n. Emitter_fire (Suc n) st p = Some st)) \<and>
   (listeners st = Some [] \<and> (deliveryQueue st = None \<or> deliveryQueue st = Some []) \<longrightarrow>
      (\<forall>n. \<exists>st'. Emitter_fire (Suc (Suc n)) st p = Some st' \<and>
          st' = perf_stop (perf_start (st\<lparr> deliveryQueue := Some [] \<rparr>)) \<and>
          invoked st' = invoked st \<and> errors st' = errors st \<and>
          listeners st' = listeners st \<and> subs st' = subs st \<and> disposed st' = disposed st \<and>
          deliveryQueue st' = Some []))"
proof -
  have 1: "Emitter_fire (Suc n) st p = Some st" if "listeners st = None" for n
    using that by (simp add: Emitter_fire_def)
  have 2: "\<exists>st'. Emitter_fire (Suc (Suc n)) st p = Some st' \<and>
          st' = perf_stop (perf_start (st\<lparr> deliveryQueue := Some [] \<rparr>)) \<and>
          invoked st' = invoked st \<and> errors st' = errors st \<and>
          listeners st' = listeners st \<and> subs st' = subs st \<and> disposed st' = disposed st \<and>
          deliveryQueue st' = Some []"
    if "listeners st = Some []" "deliveryQueue st = None \<or> deliveryQueue st = Some []" for n
  proof -
    have "drained st" using that by (simp add: drained_def)
    from Emitter_fire_drained[OF this, of n p] that(1) show ?thesis
      by (simp add: Emitter_fire_def)
  qed
  from 1 2 show ?thesis by blast
qed

theorem C3_witness:
  "listeners (Emitter_new (-1) plain_options :: nat Emitter) = None \<and>
   Emitter_fire 1 (Emitter_new (-1) plain_options :: nat Emitter) 7 = Some (Emitter_new (-1) plain_options) \<and>
   listeners (release (subscribe (Emitter_new (-1) plain_options :: nat Emitter) (\<lambda>p. []) ''a'') 0) = Some [] \<and>
   deliveryQueue (release (subscribe (Emitter_new (-1) plain_options :: nat Emitter) (\<lambda>p. []) ''a'') 0) = None \<and>
   map_option invoked
     (Emitter_fire 2 (release (subscribe (Emitter_new (-1) plain_options :: nat Emitter) (\<lambda>p. []) ''a'') 0) 7)
     = Some [] \<and>
   map_option deliveryQueue
     (Emitter_fire 2 (release (subscribe (Emitter_new (-1) plain_options :: nat Emitter) (\<lambda>p. []) ''a'') 0) 7)
     = Some (Some [])"
proof -
  let ?e = "Emitter_new (-1) plain_options :: nat Emitter"
  let ?s = "release (subscribe ?e (\<lambda>p. []) ''a'') 0"
  have e: "listeners ?e = None" by (simp add: Emitter_new_def)
  have s: "listeners ?s = Some []" "deliveryQueue ?s = None" "invoked ?s = []"
    by (simp_all add: release_def subscribe_def Emitter_new_def plain_options_def call_hook_def Let_def)
  have a: "Emitter_fire 1 ?e 7 = Some ?e"
    using C3_fire_without_listeners[of ?e 7] e by (metis One_nat_def)
  have "\<exists>st'. Emitter_fire 2 ?s 7 = Some st' \<and> invoked st' = invoked ?s \<and> deliveryQueue st' = Some []"
    using C3_fire_without_listeners[of ?s 7] s(1,2) by (metis numeral_2_eq_2)
  then have b: "map_option invoked (Emitter_fire 2 ?s 7) = Some [] \<and>
                map_option deliveryQueue (Emitter_fire 2 ?s 7) = Some (Some [])"
    using s(3) by auto
  from e a s(1,2) b show ?thesis by blast
qed

text \<open>C3 as stated fails: an emitter whose only listener has left has zero listeners,
  and \<open>fire\<close> on it creates the delivery queue.\<close>

theorem C3_counterexample:
  "map_option length (listeners (release (subscribe (Emitter_new (-1) plain_options :: nat Emitter) (\<lambda>p. []) ''a'') 0)) = Some 0 \<and>
   map_option length (deliveryQueue (release (subscribe (Emitter_new (-1) plain_options :: nat Emitter) (\<lambda>p. []) ''a'') 0)) = None \<and>
   map_option (\<lambda>s. map_option length (deliveryQueue s))
     (Emitter_fire 2 (release (subscribe (Emitter_new (-1) plain_options :: nat Emitter) (\<lambda>p. []) ''a'') 0) 7)
     = Some (Some 0)"
  by code_simp


subsection \<open>Quiet scripts\<close>

lemma exec_run_Nil: "exec (Suc n) (Call_run []) st = Some (st, None)"
  by simp

lemma exec_run_quiet:
  "quiet acts \<Longrightarrow> length acts < n \<Longrightarrow>
     exec n (Call_run acts) st = Some (quiet_run acts st, thrown (kind st) acts)"
proof (induction acts arbitrary: n st)
  case Nil
  then obtain m where "n = Suc m" by (cases n) auto
  then show ?case by simp
next
  case (Cons a rest)
  from Cons.prems(2) obtain m where n: "n = Suc m" and m: "length rest < m" by (cases n) auto
  have q: "quiet rest" using Cons.prems(1) by (simp add: quiet_def)
  note IH = Cons.IH[OF q m]
  show ?case
  proof (cases a)
    case (AFire p) then show ?thesis using Cons.prems(1) by (simp add: quiet_def)
  next
    case (ARelease i) then show ?thesis using n IH[of "release st i"] by simp
  next
    case (ASubscribe cb site) then show ?thesis using n IH[of "subscribe st cb site"] by simp
  next
    case ADispose then show ?thesis using Cons.prems(1) by (simp add: quiet_def)
  next
    case APause then show ?thesis using n IH[of "pause st"] by simp
  next
    case AResume then show ?thesis using Cons.prems(1) by (simp add: quiet_def)
  next
    case (AThrow e) then show ?thesis using n by simp
  qed
qed

lemma quiet_run_frame [simp]:
  "deliveryQueue (quiet_run acts st) = deliveryQueue st"
  "invoked (quiet_run acts st) = invoked st"
  "errors (quiet_run acts st) = errors st"
  "now (quiet_run acts st) = now st"
  "kind (quiet_run acts st) = kind st"
  "eventQueue (quiet_run acts st) = eventQueue st"
  "mergeFn (quiet_run acts st) = mergeFn st"
  "handle (quiet_run acts st) = handle st"
  "delay (quiet_run acts st) = delay st"
  "perfMon (quiet_run acts st) = perfMon st"
  "infos (quiet_run acts st) = infos st"
  "disposed (quiet_run acts st) = disposed st"
  "options (quiet_run acts st) = options st"
  "microtasks (quiet_run acts st) = microtasks st"
  "globalLeakWarningThreshold (quiet_run acts st) = globalLeakWarningThreshold st"
  by (induction acts arbitrary: st; simp split: action.splits)+

lemma exec_invoke_quiet:
  assumes "quiet (callback l e)" "Suc (length (callback l e)) < n"
  shows "exec n (Call_invoke l e) st =
           Some (quiet_run (callback l e) (st\<lparr> invoked := invoked st @ [(lid l, e, now st)] \<rparr>),
                 thrown (kind st) (callback l e))"
proof -
  from assms(2) obtain m where n: "n = Suc m" and m: "length (callback l e) < m" by (cases n) auto
  show ?thesis unfolding n using exec_run_quiet[OF assms(1) m] by simp
qed

lemma onUnexpectedError_frame [simp]:
  "deliveryQueue (onUnexpectedError e st) = deliveryQueue st"
  "invoked (onUnexpectedError e st) = invoked st"
  "errors (onUnexpectedError e st) = errors st @ [e]"
  "now (onUnexpectedError e st) = now st"
  "kind (onUnexpectedError e st) = kind st"
  "eventQueue (onUnexpectedError e st) = eventQueue st"
  "mergeFn (onUnexpectedError e st) = mergeFn st"
  "handle (onUnexpectedError e st) = handle st"
  "delay (onUnexpectedError e st) = delay st"
  "perfMon (onUnexpectedError e st) = perfMon st"
  "infos (onUnexpectedError e st) = infos st"
  "disposed (onUnexpectedError e st) = disposed st"
  "isPaused (onUnexpectedError e st) = isPaused st"
  "listeners (onUnexpectedError e st) = listeners st"
  "nextId (onUnexpectedError e st) = nextId st"
  "subs (onUnexpectedError e st) = subs st"
  "options (onUnexpectedError e st) = options st"
  "leakageMon (onUnexpectedError e st) = leakageMon st"
  "warnings (onUnexpectedError e st) = warnings st"
  "hooks (onUnexpectedError e st) = hooks st"
  "microtasks (onUnexpectedError e st) = microtasks st"
  "globalLeakWarningThreshold (onUnexpectedError e st) = globalLeakWarningThreshold st"
  by (simp_all add: onUnexpectedError_def)

lemma exec_drain_quiet:
  "deliveryQueue st = Some q \<Longrightarrow>
   \<forall>x \<in> set q. quiet (callback (fst x) (snd x)) \<and> length (callback (fst x) (snd x)) \<le> b \<Longrightarrow>
   length q + b + 2 < n \<Longrightarrow>
     exec n Call_drain st = Some (quiet_drain q st, None)"
proof (induction q arbitrary: n st)
  case Nil
  then obtain m where "n = Suc m" by (cases n) auto
  then show ?case using Nil.prems(1) by simp
next
  case (Cons x q)
  obtain l e where x: "x = (l, e)" by (cases x)
  from Cons.prems(3) obtain m where n: "n = Suc m" and m: "length q + b + 2 < m" by (cases n) auto
  have qx: "quiet (callback l e)" and lx: "Suc (length (callback l e)) < m"
    using Cons.prems(2) x m by auto
  let ?s0 = "st\<lparr> deliveryQueue := Some q \<rparr>"
  let ?s1 = "quiet_run (callback l e) (?s0\<lparr> invoked := invoked ?s0 @ [(lid l, e, now ?s0)] \<rparr>)"
  have inv: "exec m (Call_invoke l e) ?s0 = Some (?s1, thrown (kind st) (callback l e))"
    using exec_invoke_quiet[OF qx lx, of ?s0] by simp
  have rest: "\<forall>x \<in> set q. quiet (callback (fst x) (snd x)) \<and> length (callback (fst x) (snd x)) \<le> b"
    using Cons.prems(2) by simp
  have upd: "?s0\<lparr> invoked := invoked ?s0 @ [(lid l, e, now ?s0)] \<rparr>
           = st\<lparr> deliveryQueue := Some q, invoked := invoked st @ [(lid l, e, now st)] \<rparr>"
    by simp
  show ?case
  proof (cases "thrown (kind st) (callback l e)")
    case None
    have "exec m Call_drain ?s1 = Some (quiet_drain q ?s1, None)"
      by (rule Cons.IH[OF _ rest m]) simp
    then show ?thesis using n x Cons.prems(1) inv None upd by simp
  next
    case (Some err)
    have "exec m Call_drain (onUnexpectedError err ?s1) = Some (quiet_drain q (onUnexpectedError err ?s1), None)"
      by (rule Cons.IH[OF _ rest m]) simp
    then show ?thesis using n x Cons.prems(1) inv Some upd by simp
  qed
qed

lemma quiet_drain_frame [simp]:
  "now (quiet_drain q st) = now st"
  "kind (quiet_drain q st) = kind st"
  "eventQueue (quiet_drain q st) = eventQueue st"
  "mergeFn (quiet_drain q st) = mergeFn st"
  "handle (quiet_drain q st) = handle st"
  "delay (quiet_drain q st) = delay st"
  "perfMon (quiet_drain q st) = perfMon st"
  "infos (quiet_drain q st) = infos st"
  "disposed (quiet_drain q st) = disposed st"
  by (induction q arbitrary: st; simp add: Let_def split: option.splits)+

lemma quiet_drain_invoked:
  "invoked (quiet_drain q st) = invoked st @ map (\<lambda>x. (lid (fst x), snd x, now st)) q"
  by (induction q arbitrary: st) (simp_all add: Let_def split: option.splits)

lemma quiet_drain_errors:
  "errors (quiet_drain q st) =
     errors st @ List.map_filter (\<lambda>x. thrown (kind st) (callback (fst x) (snd x))) q"
  by (induction q arbitrary: st) (simp_all add: Let_def split: option.splits)

lemma quiet_drain_queue:
  "deliveryQueue (quiet_drain q st) = (if q = [] then deliveryQueue st else Some [])"
  by (induction q arbitrary: st) (simp_all add: Let_def split: option.splits)


subsection \<open>A released listener\<close>

lemma listener_ids_release: "listener_ids (release st j) \<subseteq> listener_ids st"
  by (auto simp: listener_ids_def release_def call_hook_def Let_def split: option.splits)

lemma listener_ids_subscribe:
  "listener_ids (subscribe st cb site) = insert (nextId st) (listener_ids st)"
  by (auto simp: listener_ids_def subscribe_listeners split: option.splits)

lemma listener_ids_dispose: "listener_ids (Emitter_dispose st) \<subseteq> listener_ids st"
  by (auto simp: listener_ids_def Emitter_dispose_def call_hook_def Let_def split: option.splits)

lemma queued_ids_dispose: "queued_ids (Emitter_dispose st) \<subseteq> queued_ids st"
  by (auto simp: queued_ids_def Emitter_dispose_def call_hook_def Let_def split: option.splits)

lemma absent_steps [simp]:
  "absent i st \<Longrightarrow> absent i (release st j)"
  "absent i st \<Longrightarrow> absent i (subscribe st cb site)"
  "absent i st \<Longrightarrow> absent i (Emitter_dispose st)"
  "absent i st \<Longrightarrow> absent i (pause st)"
  "absent i st \<Longrightarrow> absent i (perf_start st)"
  "absent i st \<Longrightarrow> absent i (perf_stop st)"
  "absent i st \<Longrightarrow> absent i (onUnexpectedError e st)"
  "absent i st \<Longrightarrow> absent i (run_microtasks st)"
  using listener_ids_release[of st j] listener_ids_subscribe[of st cb site]
    listener_ids_dispose[of st] queued_ids_dispose[of st]
  by (auto simp: absent_def queued_ids_def listener_ids_def)

lemma absent_updates [simp]:
  "absent i (st\<lparr> invoked := v \<rparr>) = absent i st"
  "absent i (st\<lparr> isPaused := k \<rparr>) = absent i st"
  "absent i (st\<lparr> eventQueue := ev \<rparr>) = absent i st"
  "absent i (st\<lparr> handle := h \<rparr>) = absent i st"
  "absent i (st\<lparr> now := t \<rparr>) = absent i st"
  "absent i (st\<lparr> globalLeakWarningThreshold := g \<rparr>) = absent i st"
  by (simp_all add: absent_def queued_ids_def listener_ids_def)

lemma absent_enqueue:
  "absent i st \<Longrightarrow> listeners st = Some ls \<Longrightarrow>
     absent i (st\<lparr> deliveryQueue := Some ((case deliveryQueue st of None \<Rightarrow> [] | Some q \<Rightarrow> q) @ map (\<lambda>l. (l, e)) ls) \<rparr>)"
  by (auto simp: absent_def queued_ids_def listener_ids_def split: option.splits)

lemma absent_shift:
  "absent i st \<Longrightarrow> deliveryQueue st = Some ((l, e) # q) \<Longrightarrow>
     absent i (st\<lparr> deliveryQueue := Some q \<rparr>) \<and> lid l \<noteq> i"
  by (auto simp: absent_def queued_ids_def listener_ids_def)

lemma invocations_of_append [simp]:
  "invocations_of i (xs @ ys) = invocations_of i xs @ invocations_of i ys"
  by (simp add: invocations_of_def)

lemma invocations_of_other [simp]: "j \<noteq> i \<Longrightarrow> invocations_of i [(j, e, t)] = []"
  by (simp add: invocations_of_def)

lemma exec_not_invoked:
  "exec n c st = Some (st', x) \<Longrightarrow> absent i st \<Longrightarrow> other_call i c \<Longrightarrow>
     absent i st' \<and> invocations_of i (invoked st') = invocations_of i (invoked st)"
proof (induction n arbitrary: c st st' x)
  case 0 then show ?case by simp
next
  case (Suc n)
  note IH = Suc.IH
  have oc [simp]: "other_call i Call_drain" "other_call i Call_resume" "other_call i Call_flush"
    "\<And>e. other_call i (Call_Emitter_fire e)" "\<And>e. other_call i (Call_Pauseable_fire e)"
    "\<And>e. other_call i (Call_Debounce_fire e)" "\<And>e. other_call i (Call_fire e)"
    "\<And>acts. other_call i (Call_run acts)"
    by (simp_all add: other_call_def)
  show ?case
  proof (cases c)
    case (Call_Emitter_fire e)
    show ?thesis
    proof (cases "listeners st")
      case None
      then show ?thesis using Suc.prems Call_Emitter_fire by simp
    next
      case (Some ls)
      let ?s1 = "perf_start (st\<lparr> deliveryQueue := Some ((case deliveryQueue st of None \<Rightarrow> [] | Some q \<Rightarrow> q) @ map (\<lambda>l. (l, e)) ls) \<rparr>)"
      from Suc.prems(1) Call_Emitter_fire Some obtain s2 y where
        1: "exec n Call_drain ?s1 = Some (s2, y)" and 2: "st' = perf_stop s2"
        by (auto simp: Let_def split: option.splits)
      have a: "absent i ?s1" using absent_enqueue[OF Suc.prems(2) Some] by simp
      from IH[OF 1 a] 2 show ?thesis by simp
    qed
  next
    case Call_drain
    show ?thesis
    proof (cases "deliveryQueue st")
      case None
      then show ?thesis using Suc.prems Call_drain by simp
    next
      case (Some q0)
      show ?thesis
      proof (cases q0)
        case Nil
        then show ?thesis using Suc.prems Call_drain Some by simp
      next
        case (Cons y q)
        obtain l e where y: "y = (l, e)" by (cases y)
        from absent_shift[OF Suc.prems(2)] Some Cons y
        have a: "absent i (st\<lparr> deliveryQueue := Some q \<rparr>)" and ne: "lid l \<noteq> i" by simp_all
        from Suc.prems(1) Call_drain Some Cons y obtain s1 r where
          1: "exec n (Call_invoke l e) (st\<lparr> deliveryQueue := Some q \<rparr>) = Some (s1, r)"
          and 2: "exec n Call_drain (case r of None \<Rightarrow> s1 | Some err \<Rightarrow> onUnexpectedError err s1) = Some (st', x)"
          by (auto split: option.splits)
        have o: "other_call i (Call_invoke l e)" using ne by (simp add: other_call_def)
        from IH[OF 1 a o] have a1: "absent i s1"
          and i1: "invocations_of i (invoked s1) = invocations_of i (invoked st)" by simp_all
        have a2: "absent i (case r of None \<Rightarrow> s1 | Some err \<Rightarrow> onUnexpectedError err s1)"
          using a1 by (simp split: option.splits)
        from IH[OF 2 a2] i1 show ?thesis by (simp split: option.splits)
      qed
    qed
  next
    case (Call_invoke l e)
    with Suc.prems(3) have ne: "lid l \<noteq> i" by (simp add: other_call_def)
    from Suc.prems(1) Call_invoke have
      1: "exec n (Call_run (callback l e)) (st\<lparr> invoked := invoked st @ [(lid l, e, now st)] \<rparr>) = Some (st', x)"
      by simp
    from IH[OF 1] Suc.prems(2) ne show ?thesis by simp
  next
    case (Call_run acts)
    show ?thesis
    proof (cases acts)
      case Nil
      then show ?thesis using Suc.prems Call_run by simp
    next
      case (Cons a rest)
      show ?thesis
      proof (cases a)
        case (AFire p)
        with Suc.prems Call_run Cons obtain s1 y where
          1: "exec n (Call_fire p) st = Some (s1, y)" and 2: "exec n (Call_run rest) s1 = Some (st', x)"
          by (auto split: option.splits)
        from IH[OF 1 Suc.prems(2)] IH[OF 2] show ?thesis by simp
      next
        case (ARelease j)
        with Suc.prems Call_run Cons have 2: "exec n (Call_run rest) (release st j) = Some (st', x)" by simp
        from IH[OF 2] Suc.prems(2) show ?thesis by simp
      next
        case (ASubscribe cb site)
        with Suc.prems Call_run Cons have 2: "exec n (Call_run rest) (subscribe st cb site) = Some (st', x)" by simp
        from IH[OF 2] Suc.prems(2) show ?thesis by simp
      next
        case ADispose
        with Suc.prems Call_run Cons have 2: "exec n (Call_run rest) (Emitter_dispose st) = Some (st', x)" by simp
        from IH[OF 2] Suc.prems(2) show ?thesis by simp
      next
        case APause
        show ?thesis
        proof (cases "kind st = KEmitter")
          case True
          then show ?thesis using Suc.prems Call_run Cons APause by auto
        next
          case False
          with Suc.prems Call_run Cons APause have 2: "exec n (Call_run rest) (pause st) = Some (st', x)" by simp
          from IH[OF 2] Suc.prems(2) show ?thesis by simp
        qed
      next
        case AResume
        show ?thesis
        proof (cases "kind st = KEmitter")
          case True
          then show ?thesis using Suc.prems Call_run Cons AResume by auto
        next
          case False
          with Suc.prems Call_run Cons AResume obtain s1 y where
            1: "exec n Call_resume st = Some (s1, y)" and 2: "exec n (Call_run rest) s1 = Some (st', x)"
            by (auto split: option.splits)
          from IH[OF 1 Suc.prems(2)] IH[OF 2] show ?thesis by simp
        qed
      next
        case (AThrow e)
        then show ?thesis using Suc.prems Call_run Cons by auto
      qed
    qed
  next
    case Call_resume
    show ?thesis using Suc.prems Call_resume
        IH[of Call_flush "st\<lparr>isPaused := isPaused st - 1\<rparr>"]
        IH[of "Call_Emitter_fire e" "st\<lparr>isPaused := isPaused st - 1, eventQueue := []\<rparr>" for e]
      by (auto simp: Let_def split: option.splits if_splits)
  next
    case Call_flush
    show ?thesis
    proof (cases "isPaused st = 0 \<and> eventQueue st \<noteq> []")
      case False
      then show ?thesis using Suc.prems Call_flush by (auto split: list.splits if_splits)
    next
      case True
      then obtain e rest where q: "eventQueue st = e # rest" by (cases "eventQueue st") auto
      with True Suc.prems Call_flush obtain s1 y where
        1: "exec n (Call_Emitter_fire e) (st\<lparr>eventQueue := rest\<rparr>) = Some (s1, y)"
        and 2: "exec n Call_flush s1 = Some (st', x)"
        by (auto split: option.splits)
      from IH[OF 1] IH[OF 2] Suc.prems(2) show ?thesis by simp
    qed
  next
    case (Call_Pauseable_fire e)
    show ?thesis using Suc.prems Call_Pauseable_fire IH[of "Call_Emitter_fire e" st]
      by (auto simp: Let_def split: option.splits if_splits)
  next
    case (Call_Debounce_fire e)
    show ?thesis using Suc.prems Call_Debounce_fire
        IH[of "Call_Pauseable_fire e" st] IH[of "Call_Pauseable_fire e" "(pause st)\<lparr>handle := Some (now st + timeout_after (delay st))\<rparr>"]
      by (auto simp: Let_def split: option.splits if_splits)
  next
    case (Call_fire e)
    then show ?thesis using Suc.prems
        IH[of "Call_Emitter_fire e" st] IH[of "Call_Pauseable_fire e" st] IH[of "Call_Debounce_fire e" st]
      by (auto split: kind.splits)
  qed
qed


lemma advance_not_invoked:
  "advance n t st = Some st' \<Longrightarrow> absent i st \<Longrightarrow>
     absent i st' \<and> invocations_of i (invoked st') = invocations_of i (invoked st)"
proof (induction n arbitrary: st st')
  case 0 then show ?case by simp
next
  case (Suc n)
  have a0: "absent i (run_microtasks st)" using Suc.prems(2) by simp
  show ?case
  proof (cases "handle st")
    case None
    then show ?thesis using Suc.prems a0 by (auto simp: Let_def)
  next
    case (Some due)
    show ?thesis
    proof (cases "due \<le> t")
      case False
      then show ?thesis using Some Suc.prems a0 by (auto simp: Let_def)
    next
      case True
      let ?s = "(run_microtasks st)\<lparr> now := max (now st) due, handle := None \<rparr>"
      from True Some Suc.prems(1) obtain r where
        r: "exec n Call_resume ?s = Some r" and adv: "advance n t (fst r) = Some st'"
        by (auto simp: Let_def timer_callback_def PauseableEmitter_resume_def split: option.splits)
      have a: "absent i ?s" using a0 by simp
      have o: "other_call i Call_resume" by (simp add: other_call_def)
      have "absent i (fst r) \<and> invocations_of i (invoked (fst r)) = invocations_of i (invoked ?s)"
        using exec_not_invoked[of n Call_resume ?s "fst r" "snd r" i] r a o by simp
      then show ?thesis using Suc.IH[OF adv] by simp
    qed
  qed
qed

lemma run_ops_not_invoked:
  "run_ops n ops st = Some st' \<Longrightarrow> absent i st \<Longrightarrow>
     absent i st' \<and> invocations_of i (invoked st') = invocations_of i (invoked st)"
proof (induction ops arbitrary: st)
  case Nil then show ?case by simp
next
  case (Cons x ops)
  show ?case
  proof (cases x)
    case (Do a)
    with Cons.prems(1) obtain r where
      r: "exec n (Call_run [a]) st = Some r" and rest: "run_ops n ops (fst r) = Some st'"
      by (auto split: option.splits)
    have o: "other_call i (Call_run [a])" by (simp add: other_call_def)
    have "absent i (fst r) \<and> invocations_of i (invoked (fst r)) = invocations_of i (invoked st)"
      using exec_not_invoked[of n "Call_run [a]" st "fst r" "snd r" i] r Cons.prems(2) o by simp
    then show ?thesis using Cons.IH[OF rest] by simp
  next
    case Microtasks
    then show ?thesis using Cons.prems Cons.IH[of "run_microtasks st"] by simp
  next
    case (Advance t)
    with Cons.prems(1) obtain s1 where
      s1: "advance n t st = Some s1" and rest: "run_ops n ops s1 = Some st'"
      by (auto split: option.splits)
    from advance_not_invoked[OF s1 Cons.prems(2)] Cons.IH[OF rest] show ?thesis by simp
  next
    case (SetGlobal g)
    then show ?thesis
      using Cons.prems Cons.IH[of "setGlobalLeakWarningThreshold g st"]
      by (simp add: setGlobalLeakWarningThreshold_def)
  qed
qed

lemma release_removes:
  assumes "\<not> disposed st" "map_of (subs st) i \<noteq> None"
  shows "i \<notin> listener_ids (release st i)"
  using assms
  by (auto simp: listener_ids_def release_def call_hook_def Let_def split: option.splits)

text \<open>Quiet scripts leave a listener that is out of the listener list out of it.\<close>

lemma quiet_run_left:
  "i \<notin> listener_ids st \<Longrightarrow> i < nextId st \<Longrightarrow>
     i \<notin> listener_ids (quiet_run acts st) \<and> i < nextId (quiet_run acts st)"
proof (induction acts arbitrary: st)
  case Nil then show ?case by simp
next
  case (Cons a rest)
  show ?case
  proof (cases a)
    case (ARelease j)
    have "i \<notin> listener_ids (release st j)" using Cons.prems(1) listener_ids_release[of st j] by auto
    from Cons.IH[OF this] Cons.prems(2) ARelease show ?thesis by simp
  next
    case (ASubscribe cb site)
    have "i \<notin> listener_ids (subscribe st cb site)"
      using Cons.prems by (simp add: listener_ids_subscribe)
    from Cons.IH[OF this] Cons.prems(2) ASubscribe show ?thesis by simp
  next
    case APause
    have "i \<notin> listener_ids (pause st)" using Cons.prems(1) by (simp add: listener_ids_def)
    from Cons.IH[OF this] Cons.prems APause show ?thesis by simp
  qed (use Cons.prems in simp_all)
qed

lemma quiet_drain_left:
  "i \<notin> listener_ids st \<Longrightarrow> i < nextId st \<Longrightarrow>
     i \<notin> listener_ids (quiet_drain q st) \<and> i < nextId (quiet_drain q st)"
proof (induction q arbitrary: st)
  case Nil then show ?case by simp
next
  case (Cons x q)
  let ?s0 = "st\<lparr> deliveryQueue := Some q, invoked := invoked st @ [(lid (fst x), snd x, now st)] \<rparr>"
  let ?s1 = "quiet_run (callback (fst x) (snd x)) ?s0"
  have "i \<notin> listener_ids ?s0" "i < nextId ?s0" using Cons.prems by (simp_all add: listener_ids_def)
  from quiet_run_left[OF this] have 1: "i \<notin> listener_ids ?s1" "i < nextId ?s1" by simp_all
  show ?case
  proof (cases "thrown (kind st) (callback (fst x) (snd x))")
    case None
    then show ?thesis using Cons.IH[OF 1] by (simp add: Let_def)
  next
    case (Some e)
    have "i \<notin> listener_ids (onUnexpectedError e ?s1)" "i < nextId (onUnexpectedError e ?s1)"
      using 1 by (simp_all add: listener_ids_def)
    from Cons.IH[OF this] Some show ?thesis by (simp add: Let_def)
  qed
qed

lemma exec_drain_none:
  "deliveryQueue st = None \<Longrightarrow> exec (Suc n) Call_drain st = Some (st, None)"
  by simp




lemma call_hook_frame [simp]:
  "options (call_hook c h st) = options st"
  "leakageMon (call_hook c h st) = leakageMon st"
  "perfMon (call_hook c h st) = perfMon st"
  "disposed (call_hook c h st) = disposed st"
  "deliveryQueue (call_hook c h st) = deliveryQueue st"
  "listeners (call_hook c h st) = listeners st"
  "isPaused (call_hook c h st) = isPaused st"
  "eventQueue (call_hook c h st) = eventQueue st"
  "mergeFn (call_hook c h st) = mergeFn st"
  "delay (call_hook c h st) = delay st"
  "handle (call_hook c h st) = handle st"
  "kind (call_hook c h st) = kind st"
  "globalLeakWarningThreshold (call_hook c h st) = globalLeakWarningThreshold st"
  "nextId (call_hook c h st) = nextId st"
  "subs (call_hook c h st) = subs st"
  "microtasks (call_hook c h st) = microtasks st"
  "now (call_hook c h st) = now st"
  "invoked (call_hook c h st) = invoked st"
  "errors (call_hook c h st) = errors st"
  "warnings (call_hook c h st) = warnings st"
  "infos (call_hook c h st) = infos st"
  by (simp_all add: call_hook_def)

lemma subscribe_subs:
  "subs (subscribe st cb site) =
     subs st @ [(nextId st,
        case leakageMon st of None \<Rightarrow> None
        | Some m \<Rightarrow> if snd (snd (check (globalLeakWarningThreshold st) m site
              (length (case listeners st of None \<Rightarrow> [] | Some ls \<Rightarrow> ls) + 1)))
            then Some site else None)]"
proof (cases "leakageMon st")
  case None
  then show ?thesis by (simp add: subscribe_def Let_def)
next
  case (Some m)
  obtain m1 ws r where c: "check (globalLeakWarningThreshold st) m site
      (length (case listeners st of None \<Rightarrow> [] | Some ls \<Rightarrow> ls) + 1) = (m1, ws, r)"
    by (cases "check (globalLeakWarningThreshold st) m site
      (length (case listeners st of None \<Rightarrow> [] | Some ls \<Rightarrow> ls) + 1)") auto
  show ?thesis using Some c by (simp add: subscribe_def Let_def)
qed

lemma Emitter_new_fields [simp]:
  "listeners (Emitter_new glob opts) = None"
  "deliveryQueue (Emitter_new glob opts) = None"
  "nextId (Emitter_new glob opts) = 0"
  "subs (Emitter_new glob opts) = []"
  "disposed (Emitter_new glob opts) = False"
  "invoked (Emitter_new glob opts) = []"
  "errors (Emitter_new glob opts) = []"
  "now (Emitter_new glob opts) = 0"
  "kind (Emitter_new glob opts) = KEmitter"
  "isPaused (Emitter_new glob opts) = 0"
  "eventQueue (Emitter_new glob opts) = []"
  "handle (Emitter_new glob opts) = None"
  "options (Emitter_new glob opts) = opts"
  "leakageMon (Emitter_new glob opts) = (if glob > 0 then Some (new_LeakageMonitor (leakWarningThreshold opts)) else None)"
  by (simp_all add: Emitter_new_def)

text \<open>
  C9. During one \<open>fire\<close> whose queue holds quiet callbacks (callbacks that may subscribe,
  release, pause and throw, but do not fire, resume or dispose), every entry of the
  delivery queue is invoked, in order, whichever of them throw; every exception is
  handed to the error sink, in order; and the queue ends empty.
\<close>

theorem C9_listener_faults_do_not_stop_delivery:
  assumes "listeners st = Some ls"
    and "q = (case deliveryQueue st of None \<Rightarrow> [] | Some q0 \<Rightarrow> q0) @ map (\<lambda>l. (l, p)) ls"
    and "\<forall>x \<in> set q. quiet (callback (fst x) (snd x)) \<and> length (callback (fst x) (snd x)) \<le> b"
    and "length q + b + 3 < n"
  shows "\<exists>st'. Emitter_fire n st p = Some st' \<and>
           invoked st' = invoked st @ map (\<lambda>x. (lid (fst x), snd x, now st)) q \<and>
           errors st' = errors st @ List.map_filter (\<lambda>x. thrown (kind st) (callback (fst x) (snd x))) q \<and>
           deliveryQueue st' = Some []"
proof -
  from assms(4) obtain m where n: "n = Suc m" and m: "length q + b + 2 < m" by (cases n) auto
  let ?s1 = "perf_start (st\<lparr> deliveryQueue := Some q \<rparr>)"
  have dq: "deliveryQueue ?s1 = Some q" by simp
  have d: "exec m Call_drain ?s1 = Some (quiet_drain q ?s1, None)"
    by (rule exec_drain_quiet[OF dq assms(3) m])
  have f: "exec n (Call_Emitter_fire p) st = Some (perf_stop (quiet_drain q ?s1), None)"
    unfolding n exec_Emitter_fire using assms(1) assms(2) d by simp
  show ?thesis
    using f by (simp add: Emitter_fire_def quiet_drain_invoked quiet_drain_errors quiet_drain_queue)
qed

theorem C9_witness:
  "\<exists>st'. Emitter_fire 10 three_listeners 7 = Some st' \<and>
     invoked st' = [(0, 7, 0), (1, 7, 0), (2, 7, 0)] \<and>
     errors st' = [''boom''] \<and>
     deliveryQueue st' = Some []"
proof -
  let ?ls = "[\<lparr> lid = 0, callback = \<lambda>p::nat. [], stack = None \<rparr>,
              \<lparr> lid = 1, callback = \<lambda>p. [AThrow ''boom''], stack = None \<rparr>,
              \<lparr> lid = 2, callback = \<lambda>p. [], stack = None \<rparr>]"
  let ?q = "map (\<lambda>l. (l, 7::nat)) ?ls"
  have ls: "listeners three_listeners = Some ?ls"
    by (simp add: three_listeners_def subscribe_listeners subscribe_monitor)
  have f: "deliveryQueue three_listeners = None" "invoked three_listeners = []"
    "errors three_listeners = []" "now three_listeners = 0" "kind three_listeners = KEmitter"
    by (simp_all add: three_listeners_def)
  have q: "?q = (case deliveryQueue three_listeners of None \<Rightarrow> [] | Some q0 \<Rightarrow> q0) @ map (\<lambda>l. (l, 7)) ?ls"
    by (simp add: f)
  have h: "\<forall>x \<in> set ?q. quiet (callback (fst x) (snd x)) \<and> length (callback (fst x) (snd x)) \<le> 1"
    by (simp add: quiet_def)
  have n: "length ?q + 1 + 3 < (10::nat)" by simp
  from C9_listener_faults_do_not_stop_delivery[OF ls q h n]
  show ?thesis by (simp add: f)
qed

text \<open>
  C4, as the code has it. Releasing a listener while the emitter is not disposed takes
  it out of the listener list and leaves the delivery queue alone: every entry that
  was queued, the released listener's own included, is still invoked for its payload
  (here for quiet callbacks, so that the dispatch is sure to end). Once the queue is
  drained the listener is never invoked again, whatever is called on the emitter
  afterwards.
\<close>

theorem C4_release_during_dispatch:
  assumes "\<not> disposed st" and "map_of (subs st) i \<noteq> None" and "i < nextId st"
    and "q = (case deliveryQueue st of None \<Rightarrow> [] | Some q0 \<Rightarrow> q0)"
    and "\<forall>x \<in> set q. quiet (callback (fst x) (snd x)) \<and> length (callback (fst x) (snd x)) \<le> b"
    and "length q + b + 2 < n"
  shows "\<exists>st1. drain n (release st i) = Some st1 \<and>
           invoked st1 = invoked st @ map (\<lambda>x. (lid (fst x), snd x, now st)) q \<and>
           (\<forall>m ops st2. run_ops m ops st1 = Some st2 \<longrightarrow>
              invocations_of i (invoked st2) = invocations_of i (invoked st1))"
proof -
  let ?R = "release st i"
  let ?s1 = "quiet_drain q ?R"
  from assms(6) obtain m where n: "n = Suc m" by (cases n) auto
  have d: "exec n Call_drain ?R = Some (?s1, None)"
  proof (cases "deliveryQueue st")
    case None
    then show ?thesis using assms(4) n by simp
  next
    case (Some q0)
    then have "deliveryQueue ?R = Some q" using assms(4) by simp
    from exec_drain_quiet[OF this assms(5) assms(6)] show ?thesis .
  qed
  have inv: "invoked ?s1 = invoked st @ map (\<lambda>x. (lid (fst x), snd x, now st)) q"
    by (simp add: quiet_drain_invoked)
  have "i \<notin> listener_ids ?R" "i < nextId ?R"
    using release_removes[OF assms(1,2)] assms(3) by simp_all
  from quiet_drain_left[OF this] have l: "i \<notin> listener_ids ?s1" "i < nextId ?s1" by simp_all
  have "queued_ids ?s1 = {}"
    using assms(4) by (auto simp: queued_ids_def quiet_drain_queue split: option.splits)
  with l have a: "absent i ?s1" by (simp add: absent_def)
  have "invocations_of i (invoked st2) = invocations_of i (invoked ?s1)"
    if "run_ops k ops ?s1 = Some st2" for k ops st2
    using run_ops_not_invoked[OF that a] by simp
  with d inv show ?thesis by (simp add: drain_def)
qed

theorem C4_witness:
  "\<exists>st1 st2. drain 10 (release mid_dispatch 1) = Some st1 \<and>
     invoked st1 = [(1, 7, 0)] \<and>
     run_ops 10 [Do (AFire 8), Do (AFire 9)] st1 = Some st2 \<and>
     invoked st2 = [(1, 7, 0), (0, 8, 0), (0, 9, 0)] \<and>
     invocations_of 1 (invoked st2) = [(1, 7, 0)]"
proof -
  let ?q = "[(\<lparr> lid = 1, callback = \<lambda>p::nat. [], stack = None \<rparr>, 7::nat)]"
  have h1: "\<not> disposed mid_dispatch" by (simp add: mid_dispatch_def)
  have h2: "map_of (subs mid_dispatch) 1 \<noteq> None"
    by (simp add: mid_dispatch_def subscribe_subs)
  have h3: "1 < nextId mid_dispatch" by (simp add: mid_dispatch_def)
  have h4: "?q = (case deliveryQueue mid_dispatch of None \<Rightarrow> [] | Some q0 \<Rightarrow> q0)"
    by (simp add: mid_dispatch_def)
  have h5: "\<forall>x \<in> set ?q. quiet (callback (fst x) (snd x)) \<and> length (callback (fst x) (snd x)) \<le> 0"
    by (simp add: quiet_def)
  have h6: "length ?q + 0 + 2 < (10::nat)" by simp
  have f: "invoked mid_dispatch = []" "now mid_dispatch = 0" by (simp_all add: mid_dispatch_def)
  from C4_release_during_dispatch[OF h1 h2 h3 h4 h5 h6] obtain st1 where
    d: "drain 10 (release mid_dispatch 1) = Some st1"
    and i1: "invoked st1 = [(1, 7, 0)]"
    and later: "\<And>m ops st2. run_ops m ops st1 = Some st2 \<Longrightarrow>
                  invocations_of 1 (invoked st2) = invocations_of 1 (invoked st1)"
    unfolding f by auto
  have "map_option invoked
          (case drain 10 (release mid_dispatch 1) of None \<Rightarrow> None
           | Some s \<Rightarrow> run_ops 10 [Do (AFire 8), Do (AFire 9)] s)
        = Some [(1, 7, 0), (0, 8, 0), (0, 9, 0)]"
    by code_simp
  then obtain st2 where r: "run_ops 10 [Do (AFire 8), Do (AFire 9)] st1 = Some st2"
    and i2: "invoked st2 = [(1, 7, 0), (0, 8, 0), (0, 9, 0)]"
    unfolding d by auto
  from later[OF r] i1 have "invocations_of 1 (invoked st2) = [(1, 7, 0)]"
    by (simp add: invocations_of_def)
  with d i1 r i2 show ?thesis by blast
qed

text \<open>C4 as stated fails: a listener subscribed to a disposed emitter stays in the
  listener list when it is released, and the next \<open>fire\<close> invokes it.\<close>

theorem C4_counterexample:
  "map_option invoked
     (run_ops 10 [Do ADispose, Do (ASubscribe (\<lambda>p. []) ''a''), Do (ARelease 0), Do (AFire 7)]
        (Emitter_new (-1) plain_options :: nat Emitter))
   = Some [(0, 7, 0)]"
  by code_simp


subsection \<open>Calm callbacks\<close>

lemma calm_quiet: "calm acts \<Longrightarrow> quiet acts"
proof (induction acts)
  case Nil then show ?case by (simp add: quiet_def)
next
  case (Cons a rest)
  then show ?case by (cases a) (simp_all add: calm_def quiet_def)
qed

lemma quiet_run_calm:
  "calm acts \<Longrightarrow> quiet_run acts st = st\<lparr> isPaused := isPaused st + pauses (kind st) acts \<rparr>"
proof (induction acts arbitrary: st)
  case Nil then show ?case by simp
next
  case (Cons a rest)
  have r: "calm rest" using Cons.prems by (simp add: calm_def)
  show ?case
  proof (cases a)
    case APause
    then show ?thesis using Cons.IH[OF r, of "pause st"] by (simp add: pause_def)
  next
    case (AThrow e)
    then show ?thesis by simp
  qed (use Cons.prems in \<open>simp_all add: calm_def\<close>)
qed

lemma quiet_drain_calm:
  "\<forall>x \<in> set q. calm (callback (fst x) (snd x)) \<Longrightarrow>
     listeners (quiet_drain q st) = listeners st \<and>
     isPaused (quiet_drain q st) =
       isPaused st + sum_list (map (\<lambda>x. pauses (kind st) (callback (fst x) (snd x))) q)"
proof (induction q arbitrary: st)
  case Nil then show ?case by simp
next
  case (Cons x q)
  have c: "calm (callback (fst x) (snd x))" and r: "\<forall>x \<in> set q. calm (callback (fst x) (snd x))"
    using Cons.prems by simp_all
  show ?case
    using Cons.IH[OF r]
    by (simp add: Let_def quiet_run_calm[OF c] split: option.splits)
qed

lemma Emitter_fire_calm:
  assumes ls: "listeners st = Some ls"
    and dq: "deliveryQueue st = None \<or> deliveryQueue st = Some []"
    and calm: "\<forall>l \<in> set ls. calm (callback l p) \<and> length (callback l p) \<le> b"
    and fuel: "length ls + b + 3 < n"
  shows "\<exists>st'. exec n (Call_Emitter_fire p) st = Some (st', None) \<and>
           invoked st' = invoked st @ emission ls (now st) p \<and>
           listeners st' = Some ls \<and> deliveryQueue st' = Some [] \<and>
           isPaused st' = isPaused st + sum_list (map (\<lambda>l. pauses (kind st) (callback l p)) ls) \<and>
           eventQueue st' = eventQueue st \<and> kind st' = kind st \<and> now st' = now st \<and>
           mergeFn st' = mergeFn st \<and> handle st' = handle st \<and> delay st' = delay st"
proof -
  let ?q = "map (\<lambda>l. (l, p)) ls"
  from fuel obtain m where n: "n = Suc m" and m: "length ?q + b + 2 < m" by (cases n) auto
  let ?s1 = "perf_start (st\<lparr> deliveryQueue := Some ?q \<rparr>)"
  have q0: "(case deliveryQueue st of None \<Rightarrow> [] | Some q \<Rightarrow> q) @ ?q = ?q"
    using dq by auto
  have quiet: "\<forall>x \<in> set ?q. quiet (callback (fst x) (snd x)) \<and> length (callback (fst x) (snd x)) \<le> b"
    using calm calm_quiet by auto
  have calm': "\<forall>x \<in> set ?q. calm (callback (fst x) (snd x))" using calm by auto
  have d: "exec m Call_drain ?s1 = Some (quiet_drain ?q ?s1, None)"
    by (rule exec_drain_quiet[OF _ quiet m]) simp
  have f: "exec n (Call_Emitter_fire p) st = Some (perf_stop (quiet_drain ?q ?s1), None)"
    unfolding n exec_Emitter_fire using ls q0 d by simp
  have sum: "sum_list (map (\<lambda>x. pauses (kind st) (callback (fst x) (snd x))) ?q)
           = sum_list (map (\<lambda>l. pauses (kind st) (callback l p)) ls)"
    by (simp add: comp_def)
  show ?thesis
    using f quiet_drain_calm[OF calm', of ?s1] ls sum
    by (simp add: quiet_drain_invoked quiet_drain_queue emission_def comp_def)
qed


subsection \<open>The flush of a pausable emitter\<close>

lemma exec_flush:
  "exec (Suc n) Call_flush st =
    (if isPaused st = 0
     then (case eventQueue st of
             [] \<Rightarrow> Some (st, None)
           | e # rest \<Rightarrow>
               (case exec n (Call_Emitter_fire e) (st\<lparr> eventQueue := rest \<rparr>) of
                  None \<Rightarrow> None
                | Some (st1, _) \<Rightarrow> exec n Call_flush st1))
     else Some (st, None))"
  by simp

lemma exec_resume:
  "exec (Suc n) Call_resume st =
    (if isPaused st \<noteq> 0
     then
       if isPaused st - 1 = 0
       then (case mergeFn st of
               Some merge \<Rightarrow>
                 exec n (Call_Emitter_fire (merge (eventQueue st)))
                   (st\<lparr> isPaused := isPaused st - 1, eventQueue := [] \<rparr>)
             | None \<Rightarrow> exec n Call_flush (st\<lparr> isPaused := isPaused st - 1 \<rparr>))
       else Some (st\<lparr> isPaused := isPaused st - 1 \<rparr>, None)
     else Some (st, None))"
  by (simp add: Let_def split: option.splits)

lemma flush_calm:
  "listeners st = Some ls \<Longrightarrow>
   deliveryQueue st = None \<or> deliveryQueue st = Some [] \<Longrightarrow>
   isPaused st = 0 \<Longrightarrow>
   eventQueue st = q1 @ rest \<Longrightarrow>
   \<forall>p \<in> set q1. \<forall>l \<in> set ls. calm (callback l p) \<and> length (callback l p) \<le> b \<and>
      pauses (kind st) (callback l p) = 0 \<Longrightarrow>
   rest = [] \<or> (\<exists>p q2. rest = p # q2 \<and>
      (\<forall>l \<in> set ls. calm (callback l p) \<and> length (callback l p) \<le> b) \<and>
      0 < sum_list (map (\<lambda>l. pauses (kind st) (callback l p)) ls)) \<Longrightarrow>
   length q1 + length ls + b + 5 < n \<Longrightarrow>
     \<exists>st'. exec n Call_flush st = Some (st', None) \<and>
        invoked st' = invoked st @ concat (map (emission ls (now st)) (q1 @ take 1 rest)) \<and>
        eventQueue st' = drop 1 rest \<and>
        (isPaused st' = 0 \<longleftrightarrow> rest = []) \<and>
        listeners st' = Some ls"
proof (induction q1 arbitrary: st n)
  case Nil
  from Nil.prems(7) obtain m where n: "n = Suc m" and m: "length ls + b + 3 < m" by (cases n) auto
  show ?case
  proof (cases rest)
    case Nil
    then show ?thesis using Nil.prems(1,3,4) n by simp
  next
    case (Cons p q2)
    with Nil.prems(6) have c: "\<forall>l \<in> set ls. calm (callback l p) \<and> length (callback l p) \<le> b"
      and pos: "0 < sum_list (map (\<lambda>l. pauses (kind st) (callback l p)) ls)" by auto
    let ?s0 = "st\<lparr> eventQueue := q2 \<rparr>"
    have "listeners ?s0 = Some ls" "deliveryQueue ?s0 = None \<or> deliveryQueue ?s0 = Some []"
      using Nil.prems(1,2) by simp_all
    from Emitter_fire_calm[OF this c m] obtain s1 where
      f: "exec m (Call_Emitter_fire p) ?s0 = Some (s1, None)"
      and s1: "invoked s1 = invoked st @ emission ls (now st) p" "listeners s1 = Some ls"
        "isPaused s1 = isPaused st + sum_list (map (\<lambda>l. pauses (kind st) (callback l p)) ls)"
        "eventQueue s1 = q2"
      by auto
    from m obtain k where k: "m = Suc k" by (cases m) auto
    have p1: "isPaused s1 \<noteq> 0" using s1(3) pos by linarith
    have fl: "exec m Call_flush s1 = Some (s1, None)" unfolding k exec_flush using p1 by simp
    have "exec n Call_flush st = Some (s1, None)"
      unfolding n exec_flush using Nil.prems(3,4) Cons f fl by simp
    then show ?thesis using s1(1,2,4) p1 Cons by simp
  qed
next
  case (Cons p q1)
  from Cons.prems(7) obtain m where n: "n = Suc m" and m: "length q1 + length ls + b + 5 < m"
    by (cases n) auto
  have m': "length ls + b + 3 < m" using m by simp
  have c: "\<forall>l \<in> set ls. calm (callback l p) \<and> length (callback l p) \<le> b"
    and z: "\<forall>l \<in> set ls. pauses (kind st) (callback l p) = 0"
    using Cons.prems(5) by simp_all
  let ?s0 = "st\<lparr> eventQueue := q1 @ rest \<rparr>"
  have "listeners ?s0 = Some ls" "deliveryQueue ?s0 = None \<or> deliveryQueue ?s0 = Some []"
    using Cons.prems(1,2) by simp_all
  from Emitter_fire_calm[OF this c m'] obtain s1 where
    f: "exec m (Call_Emitter_fire p) ?s0 = Some (s1, None)"
    and s1: "invoked s1 = invoked st @ emission ls (now st) p" "listeners s1 = Some ls"
      "deliveryQueue s1 = Some []"
      "isPaused s1 = isPaused st + sum_list (map (\<lambda>l. pauses (kind st) (callback l p)) ls)"
      "eventQueue s1 = q1 @ rest" "kind s1 = kind st" "now s1 = now st"
    by auto
  have zero: "sum_list (map (\<lambda>l. pauses (kind st) (callback l p)) ls) = 0" using z by simp
  have p1: "isPaused s1 = 0" using s1(4) zero Cons.prems(3) by simp
  have h5: "\<forall>p \<in> set q1. \<forall>l \<in> set ls. calm (callback l p) \<and> length (callback l p) \<le> b \<and>
      pauses (kind s1) (callback l p) = 0"
    using Cons.prems(5) s1(6) by simp
  have h6: "rest = [] \<or> (\<exists>p q2. rest = p # q2 \<and>
      (\<forall>l \<in> set ls. calm (callback l p) \<and> length (callback l p) \<le> b) \<and>
      0 < sum_list (map (\<lambda>l. pauses (kind s1) (callback l p)) ls))"
    using Cons.prems(6) s1(6) by simp
  from Cons.IH[OF s1(2) _ p1 s1(5) h5 h6 m] s1(3) obtain st' where
    fl: "exec m Call_flush s1 = Some (st', None)"
    and st': "invoked st' = invoked s1 @ concat (map (emission ls (now s1)) (q1 @ take 1 rest))"
      "eventQueue st' = drop 1 rest" "(isPaused st' = 0 \<longleftrightarrow> rest = [])" "listeners st' = Some ls"
    by auto
  have "exec n Call_flush st = Some (st', None)"
    unfolding n exec_flush using Cons.prems(3,4) f fl by simp
  then show ?case using st' s1(1,7) by simp
qed

lemma resume_calm:
  assumes "mergeFn st = None" "isPaused st = 1" "listeners st = Some ls"
    "deliveryQueue st = None \<or> deliveryQueue st = Some []"
    "eventQueue st = q1 @ rest"
    "\<forall>p \<in> set q1. \<forall>l \<in> set ls. calm (callback l p) \<and> length (callback l p) \<le> b \<and>
        pauses (kind st) (callback l p) = 0"
    "rest = [] \<or> (\<exists>p q2. rest = p # q2 \<and>
        (\<forall>l \<in> set ls. calm (callback l p) \<and> length (callback l p) \<le> b) \<and>
        0 < sum_list (map (\<lambda>l. pauses (kind st) (callback l p)) ls))"
    "length q1 + length ls + b + 6 < n"
  shows "\<exists>st'. exec n Call_resume st = Some (st', None) \<and>
        invoked st' = invoked st @ concat (map (emission ls (now st)) (q1 @ take 1 rest)) \<and>
        eventQueue st' = drop 1 rest \<and>
        (isPaused st' = 0 \<longleftrightarrow> rest = []) \<and>
        listeners st' = Some ls"
proof -
  from assms(8) obtain m where n: "n = Suc m" and m: "length q1 + length ls + b + 5 < m"
    by (cases n) auto
  let ?s0 = "st\<lparr> isPaused := isPaused st - 1 \<rparr>"
  have "\<exists>st'. exec m Call_flush ?s0 = Some (st', None) \<and>
        invoked st' = invoked ?s0 @ concat (map (emission ls (now ?s0)) (q1 @ take 1 rest)) \<and>
        eventQueue st' = drop 1 rest \<and>
        (isPaused st' = 0 \<longleftrightarrow> rest = []) \<and>
        listeners st' = Some ls"
    by (rule flush_calm[OF _ _ _ _ _ _ m]) (use assms in simp_all)
  then show ?thesis unfolding n exec_resume using assms(1,2) by simp
qed


lemma do_pause:
  assumes "kind st \<noteq> KEmitter" "2 \<le> n"
  shows "exec n (Call_run [APause]) st = Some (pause st, None)"
proof -
  have "quiet [APause :: 'a action]" by (simp add: quiet_def)
  from exec_run_quiet[OF this, of n st] assms show ?thesis by simp
qed

lemma do_fire_paused:
  assumes "kind st = KPauseable" "listeners st = Some ls" "isPaused st \<noteq> 0" "4 \<le> n"
  shows "exec n (Call_run [AFire x]) st = Some (st\<lparr> eventQueue := eventQueue st @ [x] \<rparr>, None)"
proof -
  have "exec (Suc (Suc (Suc (Suc 0)))) (Call_run [AFire x]) st
          = Some (st\<lparr> eventQueue := eventQueue st @ [x] \<rparr>, None)"
    using assms(1-3) by simp
  from exec_mono[OF this, of n] assms(4) show ?thesis by (simp add: eval_nat_numeral)
qed

lemma exec_run_AResume:
  "exec (Suc n) (Call_run (AResume # rest)) st =
     (if kind st = KEmitter then Some (st, Some ''TypeError: resume is not a function'')
      else (case exec n Call_resume st of
              None \<Rightarrow> None
            | Some (st1, _) \<Rightarrow> exec n (Call_run rest) st1))"
  by simp

lemma do_resume:
  assumes "kind st \<noteq> KEmitter" "exec n Call_resume st = Some (st', None)"
  shows "exec (Suc n) (Call_run [AResume]) st = Some (st', None)"
proof -
  from assms(2) obtain m where n: "n = Suc m" by (cases n) auto
  have "exec n (Call_run []) st' = Some (st', None)" unfolding n by simp
  then show ?thesis unfolding exec_run_AResume using assms by simp
qed

lemma pause_fire_fire_resume:
  assumes k: "kind s0 = KPauseable" and mf: "mergeFn s0 = None" and p0: "isPaused s0 = 0"
    and eq: "eventQueue s0 = []" and ls: "listeners s0 = Some ls"
    and dq: "deliveryQueue s0 = None \<or> deliveryQueue s0 = Some []"
    and c: "\<forall>l \<in> set ls. \<forall>p \<in> {x, y}. calm (callback l p) \<and> length (callback l p) \<le> b \<and>
              pauses KPauseable (callback l p) = 0"
    and fuel: "length ls + b + 9 < n"
  shows "\<exists>st'. run_ops n [Do APause, Do (AFire x), Do (AFire y), Do AResume] s0 = Some st' \<and>
           invoked st' = invoked s0 @ emission ls (now s0) x @ emission ls (now s0) y \<and>
           eventQueue st' = [] \<and> isPaused st' = 0"
proof -
  from fuel obtain m where n: "n = Suc m" and m: "length [x, y] + length ls + b + 6 < m"
    by (cases n) auto
  let ?s1 = "pause s0"
  let ?s2 = "?s1\<lparr> eventQueue := eventQueue ?s1 @ [x] \<rparr>"
  let ?s3 = "?s2\<lparr> eventQueue := eventQueue ?s2 @ [y] \<rparr>"
  have 1: "exec n (Call_run [APause]) s0 = Some (?s1, None)"
    by (rule do_pause) (use k fuel in simp_all)
  have 2: "exec n (Call_run [AFire x]) ?s1 = Some (?s2, None)"
    by (rule do_fire_paused[where ls = ls]) (use k ls fuel in simp_all)
  have 3: "exec n (Call_run [AFire y]) ?s2 = Some (?s3, None)"
    by (rule do_fire_paused[where ls = ls]) (use k ls fuel in simp_all)
  have "\<exists>st'. exec m Call_resume ?s3 = Some (st', None) \<and>
        invoked st' = invoked ?s3 @ concat (map (emission ls (now ?s3)) ([x, y] @ take 1 [])) \<and>
        eventQueue st' = drop 1 [] \<and>
        (isPaused st' = 0 \<longleftrightarrow> ([] :: 'a list) = []) \<and>
        listeners st' = Some ls"
    by (rule resume_calm[OF _ _ _ _ _ _ _ m]) (use k mf p0 eq ls dq c in \<open>simp_all add: pause_def\<close>)
  then obtain st' where r: "exec m Call_resume ?s3 = Some (st', None)"
    and st': "invoked st' = invoked s0 @ emission ls (now s0) x @ emission ls (now s0) y"
      "eventQueue st' = []" "isPaused st' = 0"
    by auto
  have 4: "exec n (Call_run [AResume]) ?s3 = Some (st', None)"
    unfolding n by (rule do_resume[OF _ r]) (use k in simp)
  have "run_ops n [Do APause, Do (AFire x), Do (AFire y), Do AResume] s0 = Some st'"
    using 1 2 3 4 by simp
  with st' show ?thesis by blast
qed

text \<open>
  C8. On a pausable emitter without merge function, \<open>resume\<close> that brings the counter
  from 1 to 0 hands the queued payloads to the listeners one at a time, first in first
  out. While no listener pauses the emitter, it goes on to the end of the queue; at the
  first payload during which a listener calls \<open>pause\<close> it stops right after that
  payload, and the payloads behind it stay queued, the emitter paused. In particular
  \<open>pause(); fire(x); fire(y); resume()\<close> yields the emission of \<open>x\<close>, then that of \<open>y\<close>.
  The callbacks here only pause or throw.
\<close>

theorem C8_resume_flushes_in_order:
  "(mergeFn st = None \<and> isPaused st = 1 \<and> listeners st = Some ls \<and>
    (deliveryQueue st = None \<or> deliveryQueue st = Some []) \<and>
    eventQueue st = q1 @ rest \<and>
    (\<forall>p \<in> set q1. \<forall>l \<in> set ls. calm (callback l p) \<and> length (callback l p) \<le> b \<and>
        pauses (kind st) (callback l p) = 0) \<and>
    (rest = [] \<or> (\<exists>p q2. rest = p # q2 \<and>
        (\<forall>l \<in> set ls. calm (callback l p) \<and> length (callback l p) \<le> b) \<and>
        0 < sum_list (map (\<lambda>l. pauses (kind st) (callback l p)) ls))) \<and>
    length q1 + length ls + b + 6 < n \<longrightarrow>
      (\<exists>st'. PauseableEmitter_resume n st = Some st' \<and>
         invoked st' = invoked st @ concat (map (emission ls (now st)) (q1 @ take 1 rest)) \<and>
         eventQueue st' = drop 1 rest \<and>
         (isPaused st' = 0 \<longleftrightarrow> rest = []))) \<and>
   (kind s0 = KPauseable \<and> mergeFn s0 = None \<and> isPaused s0 = 0 \<and> eventQueue s0 = [] \<and>
    listeners s0 = Some ls0 \<and> (deliveryQueue s0 = None \<or> deliveryQueue s0 = Some []) \<and>
    (\<forall>l \<in> set ls0. \<forall>p \<in> {x, y}. calm (callback l p) \<and> length (callback l p) \<le> b0 \<and>
        pauses KPauseable (callback l p) = 0) \<and>
    length ls0 + b0 + 9 < n0 \<longrightarrow>
      (\<exists>st'. run_ops n0 [Do APause, Do (AFire x), Do (AFire y), Do AResume] s0 = Some st' \<and>
         invoked st' = invoked s0 @ emission ls0 (now s0) x @ emission ls0 (now s0) y \<and>
         eventQueue st' = [] \<and> isPaused st' = 0))"
proof -
  have A: "\<exists>st'. PauseableEmitter_resume n st = Some st' \<and>
         invoked st' = invoked st @ concat (map (emission ls (now st)) (q1 @ take 1 rest)) \<and>
         eventQueue st' = drop 1 rest \<and>
         (isPaused st' = 0 \<longleftrightarrow> rest = [])"
    if "mergeFn st = None" "isPaused st = 1" "listeners st = Some ls"
      "deliveryQueue st = None \<or> deliveryQueue st = Some []"
      "eventQueue st = q1 @ rest"
      "\<forall>p \<in> set q1. \<forall>l \<in> set ls. calm (callback l p) \<and> length (callback l p) \<le> b \<and>
          pauses (kind st) (callback l p) = 0"
      "rest = [] \<or> (\<exists>p q2. rest = p # q2 \<and>
          (\<forall>l \<in> set ls. calm (callback l p) \<and> length (callback l p) \<le> b) \<and>
          0 < sum_list (map (\<lambda>l. pauses (kind st) (callback l p)) ls))"
      "length q1 + length ls + b + 6 < n"
    using resume_calm[OF that] by (auto simp: PauseableEmitter_resume_def)
  have B: "\<exists>st'. run_ops n0 [Do APause, Do (AFire x), Do (AFire y), Do AResume] s0 = Some st' \<and>
         invoked st' = invoked s0 @ emission ls0 (now s0) x @ emission ls0 (now s0) y \<and>
         eventQueue st' = [] \<and> isPaused st' = 0"
    if "kind s0 = KPauseable" "mergeFn s0 = None" "isPaused s0 = 0" "eventQueue s0 = []"
      "listeners s0 = Some ls0" "deliveryQueue s0 = None \<or> deliveryQueue s0 = Some []"
      "\<forall>l \<in> set ls0. \<forall>p \<in> {x, y}. calm (callback l p) \<and> length (callback l p) \<le> b0 \<and>
          pauses KPauseable (callback l p) = 0"
      "length ls0 + b0 + 9 < n0"
    using pause_fire_fire_resume[OF that] .
  from A B show ?thesis by blast
qed


lemma PauseableEmitter_new_fields [simp]:
  "listeners (PauseableEmitter_new glob opts merge) = None"
  "deliveryQueue (PauseableEmitter_new glob opts merge) = None"
  "nextId (PauseableEmitter_new glob opts merge) = 0"
  "invoked (PauseableEmitter_new glob opts merge) = []"
  "now (PauseableEmitter_new glob opts merge) = 0"
  "kind (PauseableEmitter_new glob opts merge) = KPauseable"
  "isPaused (PauseableEmitter_new glob opts merge) = 0"
  "eventQueue (PauseableEmitter_new glob opts merge) = []"
  "mergeFn (PauseableEmitter_new glob opts merge) = merge"
  "leakageMon (PauseableEmitter_new glob opts merge)
     = (if glob > 0 then Some (new_LeakageMonitor (leakWarningThreshold opts)) else None)"
  by (simp_all add: PauseableEmitter_new_def)

theorem C8_witness:
  "(\<exists>st'. PauseableEmitter_resume 20 (pausable_two\<lparr> isPaused := 1, eventQueue := [1, 2, 3] \<rparr>) = Some st' \<and>
      invoked st' = [(0, 1, 0), (1, 1, 0), (0, 2, 0), (1, 2, 0)] \<and>
      eventQueue st' = [3] \<and> isPaused st' \<noteq> 0) \<and>
   (\<exists>st'. run_ops 20 [Do APause, Do (AFire 1), Do (AFire 2), Do AResume] pausable_plain = Some st' \<and>
      invoked st' = [(0, 1, 0), (0, 2, 0)] \<and> eventQueue st' = [] \<and> isPaused st' = 0)"
proof -
  let ?st = "pausable_two\<lparr> isPaused := 1, eventQueue := [1, 2, 3] \<rparr>"
  let ?ls = "[\<lparr> lid = 0, callback = \<lambda>p::nat. [], stack = None \<rparr>,
              \<lparr> lid = 1, callback = \<lambda>p. if p = 2 then [APause] else [], stack = None \<rparr>]"
  let ?one = "[\<lparr> lid = 0, callback = \<lambda>p::nat. [], stack = None \<rparr>]"
  have a: "mergeFn ?st = None" "isPaused ?st = 1" "listeners ?st = Some ?ls"
    "deliveryQueue ?st = None \<or> deliveryQueue ?st = Some []"
    "eventQueue ?st = [1] @ [2, 3]" "kind ?st = KPauseable"
    "invoked pausable_two = []" "now pausable_two = 0"
    by (simp_all add: pausable_two_def subscribe_listeners subscribe_monitor)
  have a6: "\<forall>p \<in> set [1::nat]. \<forall>l \<in> set ?ls. calm (callback l p) \<and> length (callback l p) \<le> 1 \<and>
        pauses (kind ?st) (callback l p) = 0"
    using a(6) by (simp add: calm_def)
  have a7: "[2, 3] = [] \<or> (\<exists>p q2. [2, 3::nat] = p # q2 \<and>
        (\<forall>l \<in> set ?ls. calm (callback l p) \<and> length (callback l p) \<le> 1) \<and>
        0 < sum_list (map (\<lambda>l. pauses (kind ?st) (callback l p)) ?ls))"
    using a(6) by (simp add: calm_def)
  have a8: "length [1::nat] + length ?ls + 1 + 6 < (20::nat)" by simp
  have b: "kind pausable_plain = KPauseable" "mergeFn pausable_plain = None"
    "isPaused pausable_plain = 0" "eventQueue pausable_plain = []"
    "listeners pausable_plain = Some ?one"
    "deliveryQueue pausable_plain = None \<or> deliveryQueue pausable_plain = Some []"
    "invoked pausable_plain = []" "now pausable_plain = 0"
    by (simp_all add: pausable_plain_def subscribe_listeners)
  have b7: "\<forall>l \<in> set ?one. \<forall>p \<in> {1, 2::nat}. calm (callback l p) \<and> length (callback l p) \<le> 0 \<and>
        pauses KPauseable (callback l p) = 0"
    by (simp add: calm_def)
  have b8: "length ?one + 0 + 9 < (20::nat)" by simp
  note inst = C8_resume_flushes_in_order[of ?st ?ls "[1]" "[2, 3]" 1 20 pausable_plain ?one 1 2 0 20]
  from inst a(1-5) a6 a7 a8
  have "\<exists>st'. PauseableEmitter_resume 20 ?st = Some st' \<and>
         invoked st' = invoked ?st @ concat (map (emission ?ls (now ?st)) ([1] @ take 1 [2, 3])) \<and>
         eventQueue st' = drop 1 [2, 3] \<and>
         (isPaused st' = 0 \<longleftrightarrow> [2, 3::nat] = [])"
    by blast
  then have A: "\<exists>st'. PauseableEmitter_resume 20 ?st = Some st' \<and>
      invoked st' = [(0, 1, 0), (1, 1, 0), (0, 2, 0), (1, 2, 0)] \<and>
      eventQueue st' = [3] \<and> isPaused st' \<noteq> 0"
    by (simp add: a(7,8) emission_def)
  from inst b(1-6) b7 b8
  have "\<exists>st'. run_ops 20 [Do APause, Do (AFire 1), Do (AFire 2), Do AResume] pausable_plain = Some st' \<and>
         invoked st' = invoked pausable_plain @ emission ?one (now pausable_plain) 1
                         @ emission ?one (now pausable_plain) 2 \<and>
         eventQueue st' = [] \<and> isPaused st' = 0"
    by blast
  then have B: "\<exists>st'. run_ops 20 [Do APause, Do (AFire 1), Do (AFire 2), Do AResume] pausable_plain = Some st' \<and>
      invoked st' = [(0, 1, 0), (0, 2, 0)] \<and> eventQueue st' = [] \<and> isPaused st' = 0"
    by (simp add: b(7,8) emission_def)
  from A B show ?thesis by blast
qed


subsection \<open>The debounce emitter\<close>

lemma DebounceEmitter_new_fields [simp]:
  "listeners (DebounceEmitter_new glob opts merge d) = None"
  "deliveryQueue (DebounceEmitter_new glob opts merge d) = None"
  "nextId (DebounceEmitter_new glob opts merge d) = 0"
  "invoked (DebounceEmitter_new glob opts merge d) = []"
  "now (DebounceEmitter_new glob opts merge d) = 0"
  "kind (DebounceEmitter_new glob opts merge d) = KDebounce"
  "isPaused (DebounceEmitter_new glob opts merge d) = 0"
  "eventQueue (DebounceEmitter_new glob opts merge d) = []"
  "mergeFn (DebounceEmitter_new glob opts merge d) = Some merge"
  "handle (DebounceEmitter_new glob opts merge d) = None"
  "delay (DebounceEmitter_new glob opts merge d) = (case d of None \<Rightarrow> 100 | Some d \<Rightarrow> d)"
  "leakageMon (DebounceEmitter_new glob opts merge d)
     = (if glob > 0 then Some (new_LeakageMonitor (leakWarningThreshold opts)) else None)"
  by (simp_all add: DebounceEmitter_new_def)

lemma run_ops_append:
  "run_ops n (xs @ ys) st = (case run_ops n xs st of None \<Rightarrow> None | Some s \<Rightarrow> run_ops n ys s)"
  by (induction xs arbitrary: st) (auto split: op.splits option.splits)

lemma Emitter_fire_quiet:
  assumes ls: "listeners st = Some ls"
    and dq: "deliveryQueue st = None \<or> deliveryQueue st = Some []"
    and q: "\<forall>l \<in> set ls. quiet (callback l p) \<and> length (callback l p) \<le> b"
    and fuel: "length ls + b + 3 < n"
  shows "\<exists>st'. exec n (Call_Emitter_fire p) st = Some (st', None) \<and>
           invoked st' = invoked st @ emission ls (now st) p \<and>
           deliveryQueue st' = Some [] \<and>
           eventQueue st' = eventQueue st \<and> kind st' = kind st \<and> now st' = now st \<and>
           mergeFn st' = mergeFn st \<and> handle st' = handle st \<and> delay st' = delay st"
proof -
  let ?q = "map (\<lambda>l. (l, p)) ls"
  from fuel obtain m where n: "n = Suc m" and m: "length ?q + b + 2 < m" by (cases n) auto
  let ?s1 = "perf_start (st\<lparr> deliveryQueue := Some ?q \<rparr>)"
  have q0: "(case deliveryQueue st of None \<Rightarrow> [] | Some q \<Rightarrow> q) @ ?q = ?q"
    using dq by auto
  have quiet: "\<forall>x \<in> set ?q. quiet (callback (fst x) (snd x)) \<and> length (callback (fst x) (snd x)) \<le> b"
    using q by auto
  have d: "exec m Call_drain ?s1 = Some (quiet_drain ?q ?s1, None)"
    by (rule exec_drain_quiet[OF _ quiet m]) simp
  have f: "exec n (Call_Emitter_fire p) st = Some (perf_stop (quiet_drain ?q ?s1), None)"
    unfolding n exec_Emitter_fire using ls q0 d by simp
  show ?thesis
    using f by (simp add: quiet_drain_invoked quiet_drain_queue emission_def comp_def)
qed

lemma do_fire_debounce_first:
  assumes "kind st = KDebounce" "listeners st = Some ls" "handle st = None" "5 \<le> n"
  shows "exec n (Call_run [AFire x]) st =
           Some ((pause st)\<lparr> handle := Some (now st + timeout_after (delay st)),
                              eventQueue := eventQueue st @ [x] \<rparr>, None)"
proof -
  have "exec (Suc (Suc (Suc (Suc (Suc 0))))) (Call_run [AFire x]) st
          = Some ((pause st)\<lparr> handle := Some (now st + timeout_after (delay st)),
                              eventQueue := eventQueue st @ [x] \<rparr>, None)"
    using assms(1-3) by (simp add: Let_def)
  from exec_mono[OF this, of n] assms(4) show ?thesis by (simp add: eval_nat_numeral)
qed

lemma do_fire_debounce_pending:
  assumes "kind st = KDebounce" "listeners st = Some ls" "handle st = Some due" "isPaused st \<noteq> 0"
    "5 \<le> n"
  shows "exec n (Call_run [AFire x]) st = Some (st\<lparr> eventQueue := eventQueue st @ [x] \<rparr>, None)"
proof -
  have "exec (Suc (Suc (Suc (Suc (Suc 0))))) (Call_run [AFire x]) st
          = Some (st\<lparr> eventQueue := eventQueue st @ [x] \<rparr>, None)"
    using assms(1-4) by (simp add: Let_def)
  from exec_mono[OF this, of n] assms(5) show ?thesis by (simp add: eval_nat_numeral)
qed

lemma advance_idle:
  assumes "handle st = None \<or> (\<exists>due. handle st = Some due \<and> t < due)" "1 \<le> n"
  shows "advance n t st = Some ((run_microtasks st)\<lparr> now := max (now st) t \<rparr>)"
proof -
  from assms(2) obtain m where "n = Suc m" by (cases n) auto
  then show ?thesis using assms(1) by (auto simp: Let_def)
qed

lemma burst_pending:
  "kind st = KDebounce \<Longrightarrow> listeners st = Some ls \<Longrightarrow> handle st = Some due \<Longrightarrow>
   isPaused st \<noteq> 0 \<Longrightarrow> now st \<le> due \<Longrightarrow> \<forall>x \<in> set fires. fst x < due \<Longrightarrow> 5 \<le> n \<Longrightarrow>
     \<exists>st'. run_ops n (burst fires) st = Some st' \<and>
        eventQueue st' = eventQueue st @ map snd fires \<and>
        kind st' = KDebounce \<and> listeners st' = Some ls \<and> handle st' = Some due \<and>
        isPaused st' = isPaused st \<and> invoked st' = invoked st \<and> mergeFn st' = mergeFn st \<and>
        delay st' = delay st \<and> deliveryQueue st' = deliveryQueue st \<and> now st' \<le> due"
proof (induction fires arbitrary: st)
  case Nil
  then show ?case by (simp add: burst_def)
next
  case (Cons f fires)
  obtain t p where f: "f = (t, p)" by (cases f)
  have t: "t < due" using Cons.prems(6) f by simp
  let ?s1 = "(run_microtasks st)\<lparr> now := max (now st) t \<rparr>"
  let ?s2 = "?s1\<lparr> eventQueue := eventQueue ?s1 @ [p] \<rparr>"
  have a: "advance n t st = Some ?s1"
    by (rule advance_idle) (use Cons.prems(3,7) t in auto)
  have b: "exec n (Call_run [AFire p]) ?s1 = Some (?s2, None)"
    by (rule do_fire_debounce_pending[where ls = ls and due = due]) (use Cons.prems in simp_all)
  have "\<exists>st'. run_ops n (burst fires) ?s2 = Some st' \<and>
        eventQueue st' = eventQueue ?s2 @ map snd fires \<and>
        kind st' = KDebounce \<and> listeners st' = Some ls \<and> handle st' = Some due \<and>
        isPaused st' = isPaused ?s2 \<and> invoked st' = invoked ?s2 \<and> mergeFn st' = mergeFn ?s2 \<and>
        delay st' = delay ?s2 \<and> deliveryQueue st' = deliveryQueue ?s2 \<and> now st' \<le> due"
    by (rule Cons.IH) (use Cons.prems t in simp_all)
  then obtain st' where r: "run_ops n (burst fires) ?s2 = Some st'"
    and st': "eventQueue st' = eventQueue st @ p # map snd fires"
      "kind st' = KDebounce" "listeners st' = Some ls" "handle st' = Some due"
      "isPaused st' = isPaused st" "invoked st' = invoked st" "mergeFn st' = mergeFn st"
      "delay st' = delay st" "deliveryQueue st' = deliveryQueue st" "now st' \<le> due"
    by auto
  have "run_ops n (burst (f # fires)) st = Some st'"
    using a b r f by (simp add: burst_def)
  with st' f show ?case by simp
qed

lemma advance_timer:
  assumes "mergeFn st = Some m" "handle st = Some due" "due \<le> T" "now st \<le> due"
    "isPaused st = 1" "listeners st = Some ls"
    "deliveryQueue st = None \<or> deliveryQueue st = Some []"
    "\<forall>l \<in> set ls. quiet (callback l (m (eventQueue st))) \<and> length (callback l (m (eventQueue st))) \<le> b"
    "length ls + b + 6 < n"
  shows "\<exists>st'. advance n T st = Some st' \<and>
           invoked st' = invoked st @ emission ls due (m (eventQueue st)) \<and>
           handle st' = None \<and> eventQueue st' = [] \<and> now st' = T \<and>
           kind st' = kind st \<and> mergeFn st' = Some m \<and> delay st' = delay st \<and>
           deliveryQueue st' = Some []"
proof -
  from assms(9) obtain k where n: "n = Suc k" and k: "length ls + b + 5 < k" by (cases n) auto
  from k obtain j where kj: "k = Suc j" and j: "length ls + b + 3 < j" by (cases k) auto
  let ?s0 = "(run_microtasks st)\<lparr> now := max (now st) due, handle := None \<rparr>"
  let ?s1 = "?s0\<lparr> isPaused := isPaused ?s0 - 1, eventQueue := [] \<rparr>"
  have "listeners ?s1 = Some ls" "deliveryQueue ?s1 = None \<or> deliveryQueue ?s1 = Some []"
    using assms(6,7) by simp_all
  from Emitter_fire_quiet[OF this, of "m (eventQueue st)" b j] assms(8) j obtain s2 where
    f: "exec j (Call_Emitter_fire (m (eventQueue st))) ?s1 = Some (s2, None)"
    and s2: "invoked s2 = invoked st @ emission ls (max (now st) due) (m (eventQueue st))"
      "eventQueue s2 = []" "handle s2 = None" "now s2 = max (now st) due"
      "kind s2 = kind st" "mergeFn s2 = Some m" "delay s2 = delay st" "deliveryQueue s2 = Some []"
    using assms(1) by auto
  have r: "exec k Call_resume ?s0 = Some (s2, None)"
    unfolding kj exec_resume using assms(1,5) f by simp
  have tc: "timer_callback k ((run_microtasks st)\<lparr> now := max (now st) due \<rparr>) = Some s2"
    using r by (simp add: timer_callback_def PauseableEmitter_resume_def)
  have a2: "advance k T s2 = Some ((run_microtasks s2)\<lparr> now := max (now s2) T \<rparr>)"
    by (rule advance_idle) (use s2(3) kj in simp_all)
  have "advance n T st = Some ((run_microtasks s2)\<lparr> now := max (now s2) T \<rparr>)"
    unfolding n using assms(2,3) tc a2 by (simp add: Let_def)
  moreover have "max (now st) due = due" "max due T = T" using assms(3,4) by simp_all
  ultimately show ?thesis using s2 by simp
qed


lemma timeout_after_in_range [simp]:
  "1 \<le> d \<Longrightarrow> d \<le> 2147483647 \<Longrightarrow> timeout_after d = d"
  unfolding timeout_after_def TIMEOUT_MAX_def by simp

lemma debounce_window:
  assumes "kind st = KDebounce" and "mergeFn st = Some m"
    and "handle st = None" and "isPaused st = 0" and "eventQueue st = []"
    and "listeners st = Some ls"
    and "deliveryQueue st = None \<or> deliveryQueue st = Some []"
    and "1 \<le> delay st" and "delay st \<le> 2147483647"
    and "now st \<le> t1"
    and "\<forall>x \<in> set rest. fst x < t1 + delay st"
    and "t1 + delay st \<le> T"
    and "\<forall>l \<in> set ls. quiet (callback l (m (p1 # map snd rest))) \<and>
           length (callback l (m (p1 # map snd rest))) \<le> b"
    and "length ls + b + 6 < n"
  shows "\<exists>st'. run_ops n (burst ((t1, p1) # rest) @ [Advance T]) st = Some st' \<and>
           invoked st' = invoked st @ emission ls (t1 + delay st) (m (p1 # map snd rest)) \<and>
           handle st' = None \<and> eventQueue st' = [] \<and> now st' = T \<and>
           kind st' = KDebounce \<and> mergeFn st' = Some m \<and> delay st' = delay st \<and>
           deliveryQueue st' = Some []"
proof -
  have n5: "5 \<le> n" "1 \<le> n" using assms(14) by simp_all
  let ?due = "t1 + delay st"
  let ?s1 = "(run_microtasks st)\<lparr> now := max (now st) t1 \<rparr>"
  let ?s2 = "(pause ?s1)\<lparr> handle := Some (now ?s1 + timeout_after (delay ?s1)),
                           eventQueue := eventQueue ?s1 @ [p1] \<rparr>"
  have a: "advance n t1 st = Some ?s1"
    by (rule advance_idle) (use assms(3) n5 in simp_all)
  have b: "exec n (Call_run [AFire p1]) ?s1 = Some (?s2, None)"
    by (rule do_fire_debounce_first[where ls = ls]) (use assms n5 in simp_all)
  have now1: "max (now st) t1 = t1" using assms(10) by simp
  have due: "timeout_after (delay st) = delay st" using assms(8,9) by simp
  have "\<exists>s3. run_ops n (burst rest) ?s2 = Some s3 \<and>
        eventQueue s3 = eventQueue ?s2 @ map snd rest \<and>
        kind s3 = KDebounce \<and> listeners s3 = Some ls \<and> handle s3 = Some ?due \<and>
        isPaused s3 = isPaused ?s2 \<and> invoked s3 = invoked ?s2 \<and> mergeFn s3 = mergeFn ?s2 \<and>
        delay s3 = delay ?s2 \<and> deliveryQueue s3 = deliveryQueue ?s2 \<and> now s3 \<le> ?due"
    by (rule burst_pending) (use assms(1,6,11) now1 due n5 in simp_all)
  then obtain s3 where r: "run_ops n (burst rest) ?s2 = Some s3"
    and s3: "eventQueue s3 = p1 # map snd rest" "listeners s3 = Some ls"
      "handle s3 = Some ?due" "isPaused s3 = 1" "invoked s3 = invoked st"
      "mergeFn s3 = Some m" "deliveryQueue s3 = deliveryQueue st" "now s3 \<le> ?due"
      "kind s3 = KDebounce" "delay s3 = delay st"
    using assms(2,4,5) by auto
  have q: "\<forall>l \<in> set ls. quiet (callback l (m (eventQueue s3))) \<and>
             length (callback l (m (eventQueue s3))) \<le> b"
    using assms(13) s3(1) by simp
  have dq: "deliveryQueue s3 = None \<or> deliveryQueue s3 = Some []" using assms(7) s3(7) by simp
  from advance_timer[OF s3(6) s3(3) assms(12) s3(8) s3(4) s3(2) dq q assms(14)]
  obtain st' where f: "advance n T s3 = Some st'"
    and st': "invoked st' = invoked st @ emission ls ?due (m (p1 # map snd rest))"
      "handle st' = None" "eventQueue st' = []" "now st' = T"
      "kind st' = KDebounce" "mergeFn st' = Some m" "delay st' = delay st"
      "deliveryQueue st' = Some []"
    using s3(1,5,9,10) by auto
  have "run_ops n (burst ((t1, p1) # rest) @ [Advance T]) st = Some st'"
    using a b r f by (simp add: burst_def run_ops_append)
  with st' show ?thesis by blast
qed


text \<open>
  C1, as the code has it, for a delay that the host's timer takes as it is (from 1 to
  \<open>2^31 - 1\<close> milliseconds). The timer of a debounce emitter is started by the first
  \<open>fire\<close> after an idle period and is not started anew by the fires that follow. All
  the fires made before the timer is due, that is less than \<open>delay\<close> after the first
  one, collapse to exactly one emission of their merged payloads, delivered \<open>delay\<close>
  after the first fire. (The callbacks here may subscribe, release, pause and throw.)
  A fire made after the timer has run starts a new window in the same way, whatever
  the listeners then are, unless a listener has left the emitter paused.
\<close>

theorem C1_debounce_window_from_first_fire:
  assumes "kind st = KDebounce" and "mergeFn st = Some m"
    and "handle st = None" and "isPaused st = 0" and "eventQueue st = []"
    and "listeners st = Some ls"
    and "deliveryQueue st = None \<or> deliveryQueue st = Some []"
    and "1 \<le> delay st" and "delay st \<le> 2147483647"
    and "now st \<le> t1"
    and "\<forall>x \<in> set rest. fst x < t1 + delay st"
    and "t1 + delay st \<le> T"
    and "\<forall>l \<in> set ls. quiet (callback l (m (p1 # map snd rest))) \<and>
           length (callback l (m (p1 # map snd rest))) \<le> b"
    and "length ls + b + 6 < n"
  shows "\<exists>st'. run_ops n (burst ((t1, p1) # rest) @ [Advance T]) st = Some st' \<and>
           invoked st' = invoked st @ emission ls (t1 + delay st) (m (p1 # map snd rest)) \<and>
           handle st' = None \<and> eventQueue st' = [] \<and> now st' = T \<and>
           (\<forall>ls2 t2 p2 rest2 T2 b2.
              isPaused st' = 0 \<and> listeners st' = Some ls2 \<and> T \<le> t2 \<and>
              (\<forall>x \<in> set rest2. fst x < t2 + delay st) \<and> t2 + delay st \<le> T2 \<and>
              (\<forall>l \<in> set ls2. quiet (callback l (m (p2 # map snd rest2))) \<and>
                 length (callback l (m (p2 # map snd rest2))) \<le> b2) \<and>
              length ls2 + b2 + 6 < n \<longrightarrow>
              (\<exists>st''. run_ops n (burst ((t2, p2) # rest2) @ [Advance T2]) st' = Some st'' \<and>
                 invoked st'' = invoked st' @ emission ls2 (t2 + delay st) (m (p2 # map snd rest2)) \<and>
                 handle st'' = None \<and> eventQueue st'' = [] \<and> now st'' = T2))"
proof -
  from debounce_window[OF assms]
  obtain st' where r: "run_ops n (burst ((t1, p1) # rest) @ [Advance T]) st = Some st'"
    and st': "invoked st' = invoked st @ emission ls (t1 + delay st) (m (p1 # map snd rest))"
      "handle st' = None" "eventQueue st' = []" "now st' = T"
    and idle: "kind st' = KDebounce" "mergeFn st' = Some m" "delay st' = delay st"
      "deliveryQueue st' = Some []"
    by blast
  have "\<exists>st''. run_ops n (burst ((t2, p2) # rest2) @ [Advance T2]) st' = Some st'' \<and>
          invoked st'' = invoked st' @ emission ls2 (t2 + delay st) (m (p2 # map snd rest2)) \<and>
          handle st'' = None \<and> eventQueue st'' = [] \<and> now st'' = T2"
    if h: "isPaused st' = 0" "listeners st' = Some ls2" "T \<le> t2"
      "\<forall>x \<in> set rest2. fst x < t2 + delay st" "t2 + delay st \<le> T2"
      "\<forall>l \<in> set ls2. quiet (callback l (m (p2 # map snd rest2))) \<and>
         length (callback l (m (p2 # map snd rest2))) \<le> b2"
      "length ls2 + b2 + 6 < n"
    for ls2 t2 p2 rest2 T2 b2
  proof -
    have dq: "deliveryQueue st' = None \<or> deliveryQueue st' = Some []" using idle(4) by simp
    have d: "1 \<le> delay st'" "delay st' \<le> 2147483647" "now st' \<le> t2"
      "\<forall>x \<in> set rest2. fst x < t2 + delay st'" "t2 + delay st' \<le> T2"
      using assms(8,9) idle(3) st'(4) h(3,4,5) by simp_all
    from debounce_window[OF idle(1,2) st'(2) h(1) st'(3) h(2) dq d h(6,7)]
    show ?thesis unfolding idle(3) by blast
  qed
  with r st' show ?thesis by blast
qed

theorem C1_witness:
  "\<exists>st' st''.
     run_ops 20 (burst [(0, 7), (10, 8), (20, 9)] @ [Advance 1000]) debounce_count = Some st' \<and>
     invoked st' = [(0, 3, 50)] \<and> handle st' = None \<and> eventQueue st' = [] \<and> now st' = 1000 \<and>
     run_ops 20 (burst [(1000, 1), (1040, 2)] @ [Advance 2000]) st' = Some st'' \<and>
     invoked st'' = [(0, 3, 50), (0, 2, 1050)] \<and> handle st'' = None \<and> eventQueue st'' = [] \<and>
     now st'' = 2000"
proof -
  let ?one = "[\<lparr> lid = 0, callback = \<lambda>p::nat. [], stack = None \<rparr>]"
  let ?ops = "burst [(0, 7), (10, 8), (20, 9::nat)] @ [Advance 1000]"
  have h: "kind debounce_count = KDebounce" "mergeFn debounce_count = Some length"
    "handle debounce_count = None" "isPaused debounce_count = 0" "eventQueue debounce_count = []"
    "listeners debounce_count = Some ?one"
    "deliveryQueue debounce_count = None \<or> deliveryQueue debounce_count = Some []"
    by (simp_all add: debounce_count_def subscribe_listeners)
  have d: "delay debounce_count = 50" "invoked debounce_count = []"
    by (simp_all add: debounce_count_def)
  have h8: "1 \<le> delay debounce_count" "delay debounce_count \<le> 2147483647"
    "now debounce_count \<le> 0"
    by (simp_all add: debounce_count_def)
  have h11: "\<forall>x \<in> set [(10, 8), (20, 9::nat)]. fst x < 0 + delay debounce_count"
    by (simp add: d)
  have h12: "0 + delay debounce_count \<le> 1000" by (simp add: d)
  have h13: "\<forall>l \<in> set ?one. quiet (callback l (length (7 # map snd [(10::nat, 8), (20, 9::nat)]))) \<and>
           length (callback l (length (7 # map snd [(10::nat, 8), (20, 9::nat)]))) \<le> 0"
    by (simp add: quiet_def)
  have h14: "length ?one + 0 + 6 < (20::nat)" by simp
  from C1_debounce_window_from_first_fire[OF h h8 h11 h12 h13 h14]
  obtain st' where r: "run_ops 20 ?ops debounce_count = Some st'"
    and raw: "invoked st' = invoked debounce_count
                @ emission ?one (0 + delay debounce_count) (length (7 # map snd [(10::nat, 8), (20, 9::nat)]))"
      "handle st' = None" "eventQueue st' = []" "now st' = 1000"
    and nw: "\<forall>ls2 t2 p2 rest2 T2 b2.
        isPaused st' = 0 \<and> listeners st' = Some ls2 \<and> 1000 \<le> t2 \<and>
        (\<forall>x \<in> set rest2. fst x < t2 + delay debounce_count) \<and> t2 + delay debounce_count \<le> T2 \<and>
        (\<forall>l \<in> set ls2. quiet (callback l (length (p2 # map snd rest2))) \<and>
           length (callback l (length (p2 # map snd rest2))) \<le> b2) \<and>
        length ls2 + b2 + 6 < 20 \<longrightarrow>
        (\<exists>st''. run_ops 20 (burst ((t2, p2) # rest2) @ [Advance T2]) st' = Some st'' \<and>
           invoked st'' = invoked st' @ emission ls2 (t2 + delay debounce_count) (length (p2 # map snd rest2)) \<and>
           handle st'' = None \<and> eventQueue st'' = [] \<and> now st'' = T2)"
    by (elim exE conjE)
  have st': "invoked st' = [(0, 3, 50)]"
    using raw(1) by (simp add: d emission_def)
  have "map_option (\<lambda>s. (isPaused s, map lid (case_option [] id (listeners s)),
                         list_all (\<lambda>l. length (callback l 2) = 0) (case_option [] id (listeners s)),
                         case_option False (\<lambda>_. True) (listeners s)))
          (run_ops 20 ?ops debounce_count) = Some (0, [0], True, True)"
    by code_simp
  with r have p: "isPaused st' = 0" and ids: "map lid (case_option [] id (listeners st')) = [0]"
    and cb: "list_all (\<lambda>l. length (callback l 2) = 0) (case_option [] id (listeners st'))"
    and some: "case_option False (\<lambda>_. True) (listeners st')"
    by simp_all
  from some obtain ls2 where ls2: "listeners st' = Some ls2" by (cases "listeners st'") simp_all
  with ids cb have ls2': "map lid ls2 = [0]" "\<forall>l \<in> set ls2. callback l 2 = []"
    by (simp_all add: list_all_iff)
  have g6: "\<forall>l \<in> set ls2. quiet (callback l (length (1 # map snd [(1040::nat, 2::nat)]))) \<and>
              length (callback l (length (1 # map snd [(1040::nat, 2::nat)]))) \<le> 0"
    using ls2'(2) by (simp add: quiet_def numeral_2_eq_2)
  have "length (map lid ls2) = 1" unfolding ls2'(1) by simp
  then have g7: "length ls2 + 0 + 6 < (20::nat)" by simp
  have em: "emission ls2 1050 (2::nat) = [(0, 2, 1050)]"
    using ls2'(1) by (cases ls2) (auto simp: emission_def)
  have hyp: "isPaused st' = 0 \<and> listeners st' = Some ls2 \<and> (1000::nat) \<le> 1000 \<and>
        (\<forall>x \<in> set [(1040::nat, 2::nat)]. fst x < 1000 + delay debounce_count) \<and>
        1000 + delay debounce_count \<le> 2000 \<and>
        (\<forall>l \<in> set ls2. quiet (callback l (length (1 # map snd [(1040::nat, 2::nat)]))) \<and>
           length (callback l (length (1 # map snd [(1040::nat, 2::nat)]))) \<le> 0) \<and>
        length ls2 + 0 + 6 < 20"
    using p ls2 g6 g7 by (simp add: d quiet_def)
  from nw[rule_format, of ls2 1000 "[(1040, 2)]" 2000 1 0, OF hyp]
  obtain st'' where r2: "run_ops 20 (burst [(1000, 1), (1040, 2)] @ [Advance 2000]) st' = Some st''"
    and raw2: "invoked st'' = invoked st' @ emission ls2 (1000 + delay debounce_count)
                 (length (1 # map snd [(1040::nat, 2::nat)]))"
      "handle st'' = None" "eventQueue st'' = []" "now st'' = 2000"
    by (elim exE conjE)
  have "invoked st'' = [(0, 3, 50), (0, 2, 1050)]"
    using raw2(1) st' em by (simp add: d numeral_2_eq_2)
  with r raw(2-4) st' r2 raw2(2-4) show ?thesis by blast
qed

text \<open>C1 as stated fails. With a delay of 50, fires at the times 0, 40 and 80 have gaps
  shorter than the delay, yet they give two emissions: one at 50, which is 10 after the
  second fire, merging the first two, and one at 130. And three fires at 0, 10 and 20
  are delivered at 50, which is 30 after the last of them.\<close>

theorem C1_counterexample:
  "delay debounce_count = 50 \<and>
   map_option invoked
     (run_ops 20 (burst [(0, 7), (40, 8), (80, 9)] @ [Advance 1000]) debounce_count)
     = Some [(0, 2, 50), (0, 1, 130)] \<and>
   map_option invoked
     (run_ops 20 (burst [(0, 7), (10, 8), (20, 9)] @ [Advance 1000]) debounce_count)
     = Some [(0, 3, 50)]"
  by code_simp


subsection \<open>The async emitter\<close>

lemma run_sync_unfrozen:
  "\<not> frozen t \<Longrightarrow>
     run_sync pj who s t
       = (t\<lparr> thenables := thenables t @ map (joined pj who) (waited s) \<rparr>, raised s)"
proof (induction s arbitrary: t)
  case Nil
  then show ?case by simp
next
  case (Cons a s)
  show ?case
  proof (cases a)
    case (WaitUntil p)
    let ?t1 = "t\<lparr> thenables := thenables t @ [joined pj who p] \<rparr>"
    have w: "waitUntil pj who t p = Inr ?t1" using Cons.prems by (simp add: waitUntil_def)
    have "\<not> frozen ?t1" using Cons.prems by simp
    from Cons.IH[OF this] show ?thesis using WaitUntil w by simp
  next
    case (AsyncThrow e)
    then show ?thesis by simp
  qed
qed

lemma run_sync_new:
  "run_sync pj who s new_turn
     = (\<lparr> thenables = map (joined pj who) (waited s), frozen = False \<rparr>, raised s)"
  using run_sync_unfrozen[of new_turn pj who s] by (simp add: new_turn_def)

lemma those_map_Some:
  "those (map f xs) = Some ds \<Longrightarrow> length ds = length xs \<and> (\<forall>i < length xs. f (xs ! i) = Some (ds ! i))"
proof (induction xs arbitrary: ds)
  case Nil
  then show ?case by simp
next
  case (Cons x xs)
  from Cons.prems obtain d ds' where d: "f x = Some d" "those (map f xs) = Some ds'" "ds = d # ds'"
    by (auto split: option.splits)
  from Cons.IH[OF d(2)] d(1,3) show ?case by (auto simp: nth_Cons split: nat.splits)
qed

lemma fold_max_ge: "(t::nat) \<le> fold max xs t"
proof (induction xs arbitrary: t)
  case Nil
  then show ?case by simp
next
  case (Cons x xs)
  have "max x t \<le> fold max xs (max x t)" by (rule Cons.IH)
  then show ?case by simp
qed

lemma fold_max_mem: "x \<in> set xs \<Longrightarrow> (x::nat) \<le> fold max xs t"
proof (induction xs arbitrary: t)
  case Nil
  then show ?case by simp
next
  case (Cons y xs)
  show ?case
  proof (cases "x = y")
    case True
    have "max y t \<le> fold max xs (max y t)" by (rule fold_max_ge)
    with True show ?thesis by simp
  next
    case False
    with Cons.prems have "x \<in> set xs" by simp
    from Cons.IH[OF this] show ?thesis by simp
  qed
qed

lemma allSettled_at_Some:
  assumes "allSettled_at ps t = Some t'"
  shows "t \<le> t'" and "p \<in> set ps \<Longrightarrow> settled_by p t t'"
proof -
  from assms obtain ds where ds: "those (map settles_after ps) = Some ds"
    and t': "t' = fold max (map (\<lambda>d. t + d) ds) t"
    by (auto simp: allSettled_at_def split: option.splits)
  show "t \<le> t'" unfolding t' by (rule fold_max_ge)
  assume "p \<in> set ps"
  then obtain i where i: "i < length ps" "ps ! i = p" by (auto simp: in_set_conv_nth)
  from those_map_Some[OF ds] i have len: "length ds = length ps" and s: "settles_after p = Some (ds ! i)"
    by auto
  have "t + ds ! i \<in> set (map (\<lambda>d. t + d) ds)" using i(1) len by auto
  from fold_max_mem[OF this] have "t + ds ! i \<le> t'" unfolding t' .
  with s show "settled_by p t t'" by (simp add: settled_by_def)
qed

lemma allSettled_at_None:
  "allSettled_at ps t = None \<Longrightarrow> \<exists>p \<in> set ps. settles_after p = None"
proof (induction ps)
  case Nil
  then show ?case by (simp add: allSettled_at_def)
next
  case (Cons p ps)
  show ?case
  proof (cases "settles_after p")
    case None
    then show ?thesis by simp
  next
    case (Some d)
    with Cons.prems have "allSettled_at ps t = None"
      by (auto simp: allSettled_at_def split: option.splits)
    from Cons.IH[OF this] show ?thesis by simp
  qed
qed

lemma settled_by_mono: "settled_by p t0 t \<Longrightarrow> t \<le> t' \<Longrightarrow> settled_by p t0 t'"
  by (auto simp: settled_by_def split: option.splits)

text \<open>One pass of the loop, case by case.\<close>

lemma fireAsync_loop_cancelled:
  "isCancellationRequested token (a_now st) \<Longrightarrow>
     fireAsync_loop token pj (x # q) st = (st\<lparr> asyncDeliveryQueue := Some (x # q) \<rparr>, True)"
  by simp

lemma fireAsync_loop_threw:
  "\<not> isCancellationRequested token (a_now st) \<Longrightarrow> raised (a_callback (fst x) (snd x)) = Some e \<Longrightarrow>
     fireAsync_loop token pj (x # q) st =
       fireAsync_loop token pj q
         (st\<lparr> a_errors := a_errors st @ [e],
              a_log := a_log st @
                [\<lparr> inv_listener = a_lid (fst x), inv_data = snd x, inv_time = a_now st,
                   inv_turn = \<lparr> thenables = map (joined pj (a_lid (fst x))) (waited (a_callback (fst x) (snd x))),
                                frozen = False \<rparr>,
                   inv_threw = Some e \<rparr>] \<rparr>)"
  by (simp add: run_sync_new Let_def)

lemma fireAsync_loop_stuck:
  "\<not> isCancellationRequested token (a_now st) \<Longrightarrow> raised (a_callback (fst x) (snd x)) = None \<Longrightarrow>
   allSettled_at (map (joined pj (a_lid (fst x))) (waited (a_callback (fst x) (snd x)))) (a_now st) = None \<Longrightarrow>
     fireAsync_loop token pj (x # q) st =
       (st\<lparr> a_log := a_log st @
                [\<lparr> inv_listener = a_lid (fst x), inv_data = snd x, inv_time = a_now st,
                   inv_turn = \<lparr> thenables = map (joined pj (a_lid (fst x))) (waited (a_callback (fst x) (snd x))),
                                frozen = True \<rparr>,
                   inv_threw = None \<rparr>],
            asyncDeliveryQueue := Some q \<rparr>, False)"
  by (simp add: run_sync_new Let_def)

lemma fireAsync_loop_awaited:
  "\<not> isCancellationRequested token (a_now st) \<Longrightarrow> raised (a_callback (fst x) (snd x)) = None \<Longrightarrow>
   allSettled_at (map (joined pj (a_lid (fst x))) (waited (a_callback (fst x) (snd x)))) (a_now st) = Some t' \<Longrightarrow>
     fireAsync_loop token pj (x # q) st =
       fireAsync_loop token pj q
         (st\<lparr> a_log := a_log st @
                [\<lparr> inv_listener = a_lid (fst x), inv_data = snd x, inv_time = a_now st,
                   inv_turn = \<lparr> thenables = map (joined pj (a_lid (fst x))) (waited (a_callback (fst x) (snd x))),
                                frozen = True \<rparr>,
                   inv_threw = None \<rparr>],
              a_now := t',
              a_errors := a_errors st @
                rejections (map (joined pj (a_lid (fst x))) (waited (a_callback (fst x) (snd x)))) \<rparr>)"
  by (simp add: run_sync_new Let_def)

lemma fireAsync_loop_log:
  "fireAsync_loop token pj q st = (st', fin) \<Longrightarrow>
   \<exists>new. a_log st' = a_log st @ new \<and>
     list_all2 (logged pj) (take (length new) q) new \<and>
     (0 < length new \<longrightarrow> inv_time (new ! 0) = a_now st) \<and>
     (\<forall>i. Suc i < length new \<longrightarrow> inv_threw (new ! i) = None \<longrightarrow>
        (\<forall>p \<in> set (thenables (inv_turn (new ! i))).
           settled_by p (inv_time (new ! i)) (inv_time (new ! Suc i)))) \<and>
     a_now st \<le> a_now st' \<and>
     a_errors st' = a_errors st @ concat (map reported new) \<and>
     (fin \<longrightarrow> (\<forall>e \<in> set new. inv_threw e = None \<longrightarrow>
        (\<forall>p \<in> set (thenables (inv_turn e)). settled_by p (inv_time e) (a_now st'))))"
proof (induction q arbitrary: st)
  case Nil
  then have "st' = st\<lparr> asyncDeliveryQueue := Some [] \<rparr>" by simp
  then show ?case by simp
next
  case (Cons x q)
  let ?s = "a_callback (fst x) (snd x)"
  let ?ps = "map (joined pj (a_lid (fst x))) (waited ?s)"
  show ?case
  proof (cases "isCancellationRequested token (a_now st)")
    case True
    from Cons.prems fireAsync_loop_cancelled[OF True, of pj x q]
    have "st' = st\<lparr> asyncDeliveryQueue := Some (x # q) \<rparr>" by simp
    then show ?thesis by simp
  next
    case False
    define e where "e = \<lparr> inv_listener = a_lid (fst x), inv_data = snd x, inv_time = a_now st,
                          inv_turn = \<lparr> thenables = ?ps, frozen = (raised ?s = None) \<rparr>,
                          inv_threw = raised ?s \<rparr>"
    have e: "logged pj x e" "inv_time e = a_now st" "inv_threw e = raised ?s"
      "thenables (inv_turn e) = ?ps"
      by (simp_all add: e_def logged_def)
    have step: "\<exists>new. a_log st' = a_log st @ new \<and>
       list_all2 (logged pj) (take (length new) (x # q)) new \<and>
       (0 < length new \<longrightarrow> inv_time (new ! 0) = a_now st) \<and>
       (\<forall>i. Suc i < length new \<longrightarrow> inv_threw (new ! i) = None \<longrightarrow>
          (\<forall>p \<in> set (thenables (inv_turn (new ! i))).
             settled_by p (inv_time (new ! i)) (inv_time (new ! Suc i)))) \<and>
       a_now st \<le> a_now st' \<and>
       a_errors st' = a_errors st @ concat (map reported new) \<and>
       (fin \<longrightarrow> (\<forall>e \<in> set new. inv_threw e = None \<longrightarrow>
          (\<forall>p \<in> set (thenables (inv_turn e)). settled_by p (inv_time e) (a_now st'))))"
      if rec: "fireAsync_loop token pj q s2 = (st', fin)"
        and s2: "a_log s2 = a_log st @ [e]" "a_now st \<le> a_now s2"
          "a_errors s2 = a_errors st @ reported e"
          "inv_threw e = None \<longrightarrow> (\<forall>p \<in> set (thenables (inv_turn e)). settled_by p (inv_time e) (a_now s2))"
      for s2
    proof -
      from Cons.IH[OF rec] obtain new where
        n1: "a_log st' = a_log s2 @ new"
        and n2: "list_all2 (logged pj) (take (length new) q) new"
        and n3: "0 < length new \<longrightarrow> inv_time (new ! 0) = a_now s2"
        and n4: "\<forall>i. Suc i < length new \<longrightarrow> inv_threw (new ! i) = None \<longrightarrow>
          (\<forall>p \<in> set (thenables (inv_turn (new ! i))).
             settled_by p (inv_time (new ! i)) (inv_time (new ! Suc i)))"
        and n5: "a_now s2 \<le> a_now st'"
        and n6: "a_errors st' = a_errors s2 @ concat (map reported new)"
        and n7: "fin \<longrightarrow> (\<forall>e \<in> set new. inv_threw e = None \<longrightarrow>
          (\<forall>p \<in> set (thenables (inv_turn e)). settled_by p (inv_time e) (a_now st')))"
        by blast
      have c1: "a_log st' = a_log st @ (e # new)" using n1 s2(1) by simp
      have c2: "list_all2 (logged pj) (take (length (e # new)) (x # q)) (e # new)"
        using n2 e(1) by simp
      have c3: "0 < length (e # new) \<longrightarrow> inv_time ((e # new) ! 0) = a_now st" using e(2) by simp
      have c4: "settled_by p (inv_time ((e # new) ! i)) (inv_time ((e # new) ! Suc i))"
        if i: "Suc i < length (e # new)" "inv_threw ((e # new) ! i) = None"
          "p \<in> set (thenables (inv_turn ((e # new) ! i)))" for i p
      proof (cases i)
        case 0
        with i(1) have "0 < length new" by simp
        with n3 have "inv_time (new ! 0) = a_now s2" by simp
        with s2(4) i(2,3) 0 show ?thesis by simp
      next
        case (Suc j)
        with i n4 show ?thesis by simp
      qed
      have c5: "a_now st \<le> a_now st'" using s2(2) n5 by simp
      have c6: "a_errors st' = a_errors st @ concat (map reported (e # new))"
        using n6 s2(3) by simp
      have c7: "settled_by p (inv_time e') (a_now st')"
        if f: fin and e': "e' \<in> set (e # new)" "inv_threw e' = None" "p \<in> set (thenables (inv_turn e'))"
        for e' p
      proof (cases "e' = e")
        case True
        with s2(4) e' have "settled_by p (inv_time e) (a_now s2)" by simp
        from settled_by_mono[OF this n5] True show ?thesis by simp
      next
        case False
        with e'(1) have "e' \<in> set new" by simp
        with n7 f e'(2,3) show ?thesis by blast
      qed
      from c1 c2 c3 c4 c5 c6 c7 show ?thesis by blast
    qed
    show ?thesis
    proof (cases "raised ?s")
      case (Some err)
      let ?s2 = "st\<lparr> a_errors := a_errors st @ [err], a_log := a_log st @ [e] \<rparr>"
      have "fireAsync_loop token pj (x # q) st = fireAsync_loop token pj q ?s2"
        unfolding fireAsync_loop_threw[OF False Some] e_def using Some by simp
      with Cons.prems have rec: "fireAsync_loop token pj q ?s2 = (st', fin)" by simp
      show ?thesis
        by (rule step[OF rec]) (use e Some in \<open>simp_all add: reported_def\<close>)
    next
      case None
      show ?thesis
      proof (cases "allSettled_at ?ps (a_now st)")
        case stuck: None
        have "fireAsync_loop token pj (x # q) st
                = (st\<lparr> a_log := a_log st @ [e], asyncDeliveryQueue := Some q \<rparr>, False)"
          unfolding fireAsync_loop_stuck[OF False None stuck] e_def using None by simp
        with Cons.prems have st': "st' = st\<lparr> a_log := a_log st @ [e], asyncDeliveryQueue := Some q \<rparr>"
          and fin: "\<not> fin" by simp_all
        have r: "reported e = []" using e None stuck by (simp add: reported_def)
        have "a_log st' = a_log st @ [e]" "list_all2 (logged pj) (take (length [e]) (x # q)) [e]"
          "0 < length [e] \<longrightarrow> inv_time ([e] ! 0) = a_now st" "a_now st \<le> a_now st'"
          "a_errors st' = a_errors st @ concat (map reported [e])"
          using st' e r by simp_all
        moreover have "\<forall>i. Suc i < length [e] \<longrightarrow> inv_threw ([e] ! i) = None \<longrightarrow>
          (\<forall>p \<in> set (thenables (inv_turn ([e] ! i))).
             settled_by p (inv_time ([e] ! i)) (inv_time ([e] ! Suc i)))" by simp
        ultimately show ?thesis using fin by blast
      next
        case (Some t')
        let ?s2 = "st\<lparr> a_log := a_log st @ [e], a_now := t',
                       a_errors := a_errors st @ rejections ?ps \<rparr>"
        have "fireAsync_loop token pj (x # q) st = fireAsync_loop token pj q ?s2"
          unfolding fireAsync_loop_awaited[OF False None Some] e_def using None by simp
        with Cons.prems have rec: "fireAsync_loop token pj q ?s2 = (st', fin)" by simp
        have r: "reported e = rejections ?ps" using e None Some by (simp add: reported_def)
        show ?thesis
          by (rule step[OF rec]) (use e r allSettled_at_Some[OF Some] in simp_all)
      qed
    qed
  qed
qed


lemma fireAsync_idle:
  "a_listeners st = Some ls \<Longrightarrow> asyncDeliveryQueue st = None \<or> asyncDeliveryQueue st = Some [] \<Longrightarrow>
     fireAsync token pj data st = fireAsync_loop token pj (map (\<lambda>l. (l, data)) ls) st"
  by (auto simp: fireAsync_def)

lemma logged_take:
  assumes "list_all2 (logged pj) (take (length new) (map (\<lambda>l. (l, data)) ls)) new"
  shows "length new \<le> length ls" and "i < length new \<Longrightarrow> logged pj (ls ! i, data) (new ! i)"
proof -
  from list_all2_lengthD[OF assms] show len: "length new \<le> length ls" by simp
  assume i: "i < length new"
  with len have "i < length (take (length new) (map (\<lambda>l. (l, data)) ls))" by simp
  from list_all2_nthD[OF assms this] i len show "logged pj (ls ! i, data) (new ! i)" by simp
qed






text \<open>
  C7, as the code has it, for a \<open>fireAsync\<close> that runs alone on an emitter whose async
  queue is empty. At every point of the synchronous run of a callback a call of
  \<open>waitUntil\<close> is accepted and adds its promise to the turn, so that the turn holds
  every promise the callback passed. Once the synchronous call of a listener has
  returned normally, every call of the \<open>waitUntil\<close> of that turn throws the error
  "waitUntil can NOT be called asynchronous".
\<close>

theorem C7_waitUntil_only_during_the_synchronous_call:
  assumes "a_listeners st = Some ls"
    and "asyncDeliveryQueue st = None \<or> asyncDeliveryQueue st = Some []"
    and "a_log st = []"
    and "fireAsync token pj data st = (st', resolved)"
  shows "(\<forall>who s p. waitUntil pj who (fst (run_sync pj who s new_turn)) p
            = Inr ((fst (run_sync pj who s new_turn))
                \<lparr> thenables := thenables (fst (run_sync pj who s new_turn)) @ [joined pj who p] \<rparr>)) \<and>
    (\<forall>i < length (a_log st').
       inv_listener (a_log st' ! i) = a_lid (ls ! i) \<and>
       thenables (inv_turn (a_log st' ! i))
         = map (joined pj (a_lid (ls ! i))) (waited (a_callback (ls ! i) data)) \<and>
       inv_threw (a_log st' ! i) = raised (a_callback (ls ! i) data) \<and>
       (inv_threw (a_log st' ! i) = None \<longrightarrow>
          (\<forall>p. waitUntil pj (a_lid (ls ! i)) (inv_turn (a_log st' ! i)) p
                 = Inl ''waitUntil can NOT be called asynchronous'')))"
proof -
  have sync: "waitUntil pj who (fst (run_sync pj who s new_turn)) p
            = Inr ((fst (run_sync pj who s new_turn))
                \<lparr> thenables := thenables (fst (run_sync pj who s new_turn)) @ [joined pj who p] \<rparr>)"
    for who s p
    by (simp add: run_sync_new waitUntil_def)
  have loop: "fireAsync_loop token pj (map (\<lambda>l. (l, data)) ls) st = (st', resolved)"
    using fireAsync_idle[OF assms(1,2)] assms(4) by simp
  from fireAsync_loop_log[OF loop] assms(3) have
    n2: "list_all2 (logged pj) (take (length (a_log st')) (map (\<lambda>l. (l, data)) ls)) (a_log st')"
    by auto
  have late: "inv_listener (a_log st' ! i) = a_lid (ls ! i) \<and>
       thenables (inv_turn (a_log st' ! i))
         = map (joined pj (a_lid (ls ! i))) (waited (a_callback (ls ! i) data)) \<and>
       inv_threw (a_log st' ! i) = raised (a_callback (ls ! i) data) \<and>
       (inv_threw (a_log st' ! i) = None \<longrightarrow>
          (\<forall>p. waitUntil pj (a_lid (ls ! i)) (inv_turn (a_log st' ! i)) p
                 = Inl ''waitUntil can NOT be called asynchronous''))"
    if "i < length (a_log st')" for i
    using logged_take(2)[OF n2 that] by (simp add: logged_def waitUntil_def)
  from sync late show ?thesis by blast
qed

theorem C7_witness:
  "a_log async_two_calm = [] \<and>
   map inv_listener (a_log (fst (fireAsync None None 7 async_two_calm))) = [0, 1] \<and>
   map inv_threw (a_log (fst (fireAsync None None 7 async_two_calm))) = [None, None] \<and>
   thenables (inv_turn (a_log (fst (fireAsync None None 7 async_two_calm)) ! 0))
     = [\<lparr> settles_after = Some 30, rejection = Some ''late'' \<rparr>] \<and>
   waitUntil None 0 (inv_turn (a_log (fst (fireAsync None None 7 async_two_calm)) ! 0))
       \<lparr> settles_after = Some 5, rejection = None \<rparr>
     = Inl ''waitUntil can NOT be called asynchronous'' \<and>
   waitUntil None 0 (fst (run_sync None 0 [WaitUntil \<lparr> settles_after = Some 30, rejection = Some ''late'' \<rparr>] new_turn))
       \<lparr> settles_after = Some 5, rejection = None \<rparr>
     = Inr \<lparr> thenables = [\<lparr> settles_after = Some 30, rejection = Some ''late'' \<rparr>,
                          \<lparr> settles_after = Some 5, rejection = None \<rparr>], frozen = False \<rparr>"
proof -
  let ?r = "fireAsync None None (7::nat) async_two_calm"
  let ?p = "\<lparr> settles_after = Some 30, rejection = Some ''late'' \<rparr>"
  let ?p5 = "\<lparr> settles_after = Some 5, rejection = None \<rparr>"
  let ?ls = "[\<lparr> a_lid = 0, a_callback = \<lambda>d::nat. [WaitUntil ?p] \<rparr>,
              \<lparr> a_lid = 1, a_callback = \<lambda>d::nat. [WaitUntil \<lparr> settles_after = Some 20, rejection = None \<rparr>] \<rparr>]"
  have h: "a_listeners async_two_calm = Some ?ls"
    "asyncDeliveryQueue async_two_calm = None \<or> asyncDeliveryQueue async_two_calm = Some []"
    "a_log async_two_calm = []"
    by (simp_all add: async_two_calm_def)
  have r: "?r = (fst ?r, snd ?r)" by simp
  have c: "map inv_listener (a_log (fst ?r)) = [0, 1]"
    "map inv_threw (a_log (fst ?r)) = [None, None]"
    by code_simp+
  have len: "length (a_log (fst ?r)) = 2" using c(1) by (metis length_map length_Cons list.size(3) numeral_2_eq_2)
  have t0: "inv_threw (a_log (fst ?r) ! 0) = None"
    using c(2) len by (metis nth_map nth_Cons_0 zero_less_numeral)
  from C7_waitUntil_only_during_the_synchronous_call[OF h r] have
    sync: "\<forall>who s p. waitUntil None who (fst (run_sync None who s new_turn)) p
            = Inr ((fst (run_sync None who s new_turn))
                \<lparr> thenables := thenables (fst (run_sync None who s new_turn)) @ [joined None who p] \<rparr>)"
    and late: "\<forall>i < length (a_log (fst ?r)).
       inv_listener (a_log (fst ?r) ! i) = a_lid (?ls ! i) \<and>
       thenables (inv_turn (a_log (fst ?r) ! i))
         = map (joined None (a_lid (?ls ! i))) (waited (a_callback (?ls ! i) 7)) \<and>
       inv_threw (a_log (fst ?r) ! i) = raised (a_callback (?ls ! i) 7) \<and>
       (inv_threw (a_log (fst ?r) ! i) = None \<longrightarrow>
          (\<forall>p. waitUntil None (a_lid (?ls ! i)) (inv_turn (a_log (fst ?r) ! i)) p
                 = Inl ''waitUntil can NOT be called asynchronous''))"
    by blast+
  have "0 < length (a_log (fst ?r))" using len by simp
  from late[rule_format, OF this] t0 have th: "thenables (inv_turn (a_log (fst ?r) ! 0)) = [?p]"
    and l: "waitUntil None 0 (inv_turn (a_log (fst ?r) ! 0)) ?p5
              = Inl ''waitUntil can NOT be called asynchronous''"
    by (simp_all add: joined_def)
  from sync have "waitUntil None 0 (fst (run_sync None 0 [WaitUntil ?p] new_turn)) ?p5
     = Inr ((fst (run_sync None 0 [WaitUntil ?p] new_turn))
                \<lparr> thenables := thenables (fst (run_sync None 0 [WaitUntil ?p] new_turn)) @ [joined None 0 ?p5] \<rparr>)"
    by blast
  then have s: "waitUntil None 0 (fst (run_sync None 0 [WaitUntil ?p] new_turn)) ?p5
     = Inr \<lparr> thenables = [?p, ?p5], frozen = False \<rparr>"
    by (simp add: run_sync_new joined_def)
  from h(3) c th l s show ?thesis by simp
qed

text \<open>C7 as stated fails when the synchronous call of the listener ends with an
  exception: the first listener of \<open>async_two\<close> throws, its turn is not frozen, and a
  later call of its \<open>waitUntil\<close> is accepted.\<close>

theorem C7_counterexample:
  "map inv_threw (a_log (fst (fireAsync None None 7 async_two))) = [Some ''boom'', None] \<and>
   waitUntil None 0 (inv_turn (a_log (fst (fireAsync None None 7 async_two)) ! 0))
       \<lparr> settles_after = Some 5, rejection = None \<rparr>
     = Inr \<lparr> thenables = [\<lparr> settles_after = Some 30, rejection = Some ''late'' \<rparr>,
                          \<lparr> settles_after = Some 5, rejection = None \<rparr>], frozen = False \<rparr>"
  by code_simp

end
